theory Spec2Isabelle
  imports Complex_Main "HOL-Library.Word"
begin

section \<open>Strings\<close>

text \<open>
  A JavaScript string is a sequence of 16-bit code units; \<open>length\<close> counts code units,
  as \<open>String.prototype.length\<close> does. \<open>js\<close> embeds an ASCII literal.
\<close>

type_synonym cu = "16 word"
type_synonym jsstring = "cu list"

definition js :: "string \<Rightarrow> jsstring" where
  "js s = map (\<lambda>c. of_nat (of_char c)) s"

definition LF :: cu where "LF = 0x0A"

text \<open>\<open>String.prototype.startsWith\<close> and \<open>String.prototype.split\<close> on a one-unit separator.\<close>

definition startsWith :: "jsstring \<Rightarrow> jsstring \<Rightarrow> bool" where
  "startsWith s p = (take (length p) s = p)"

fun split :: "cu \<Rightarrow> jsstring \<Rightarrow> jsstring list" where
  "split sep [] = [[]]"
| "split sep (c # cs) =
     (if c = sep then [] # split sep cs
      else (case split sep cs of l # ls \<Rightarrow> (c # l) # ls | [] \<Rightarrow> [[c]]))"

text \<open>
  \<open>String.prototype.trim\<close> removes WhiteSpace and LineTerminator code units from both
  ends (ECMA-262, TrimString).
\<close>

definition isTrimSpace :: "cu \<Rightarrow> bool" where
  "isTrimSpace c =
     (c = 0x09 \<or> c = 0x0A \<or> c = 0x0B \<or> c = 0x0C \<or> c = 0x0D \<or> c = 0x20 \<or> c = 0xA0
      \<or> c = 0x1680 \<or> (0x2000 \<le> c \<and> c \<le> 0x200A) \<or> c = 0x2028 \<or> c = 0x2029
      \<or> c = 0x202F \<or> c = 0x205F \<or> c = 0x3000 \<or> c = 0xFEFF)"

definition trim :: "jsstring \<Rightarrow> jsstring" where
  "trim s = rev (dropWhile isTrimSpace (rev (dropWhile isTrimSpace s)))"

subsection \<open>cleanJsonString\<close>

text \<open>
  \<^verbatim>\<open>str.replace(/```(json)?\n/g, '')\<close>: the scan goes left to right; at each position
  the pattern matches three backquotes, optionally \<open>json\<close>, then a line feed; a match is
  deleted and the scan resumes after it, otherwise the code unit is kept.
\<close>

definition fence :: jsstring where "fence = js ''```''"

fun removeFenceOpen :: "jsstring \<Rightarrow> jsstring" where
  "removeFenceOpen [] = []"
| "removeFenceOpen (c # cs) =
     (if startsWith (c # cs) (fence @ js ''json'' @ [LF]) then removeFenceOpen (drop 7 cs)
      else if startsWith (c # cs) (fence @ [LF]) then removeFenceOpen (drop 3 cs)
      else c # removeFenceOpen cs)"

text \<open>
  \<^verbatim>\<open>.replace(/```$/g, '')\<close>: without the \<open>m\<close> flag \<open>$\<close> is the end of the input, so the
  only possible match is three backquotes ending the string.
\<close>

definition removeFenceClose :: "jsstring \<Rightarrow> jsstring" where
  "removeFenceClose s =
     (if 3 \<le> length s \<and> drop (length s - 3) s = fence then take (length s - 3) s else s)"

definition cleanJsonString :: "jsstring \<Rightarrow> jsstring" where
  "cleanJsonString str = trim (removeFenceClose (removeFenceOpen str))"

section \<open>Numbers\<close>

text \<open>
  A JavaScript Number is an IEEE 754 binary64 value. A finite value is kept as the
  rational it denotes (\<open>Fin 0\<close> is \<open>+0\<close>); \<open>b64\<close> rounds an exact rational to the
  nearest binary64 value, ties to even, with gradual underflow below \<open>2^-1022\<close> and
  overflow to infinity from \<open>2^1024 - 2^970\<close> on. The arithmetic operators compute the
  exact result and round it once, as IEEE 754 prescribes.
\<close>

datatype number = Fin rat | NegZero | PosInf | NegInf | NaN

function bits :: "nat \<Rightarrow> nat" where
  "bits n = (if n = 0 then 0 else Suc (bits (n div 2)))"
  by pat_completeness auto
termination
  by (relation "measure id") auto

declare bits.simps [simp del]

definition pow2 :: "int \<Rightarrow> rat" where
  "pow2 e = (if 0 \<le> e then 2 ^ nat e else 1 / 2 ^ nat (- e))"

definition pow10 :: "int \<Rightarrow> rat" where
  "pow10 e = (if 0 \<le> e then 10 ^ nat e else 1 / 10 ^ nat (- e))"

text \<open>\<open>floor_log2 x\<close> is the \<open>e\<close> with \<open>2^e \<le> x < 2^(e+1)\<close>, for \<open>x > 0\<close>.\<close>

definition floor_log2 :: "rat \<Rightarrow> int" where
  "floor_log2 x =
     (if 1 \<le> x then int (bits (nat \<lfloor>x\<rfloor>)) - 1 else - int (bits (nat (\<lceil>1 / x\<rceil> - 1))))"

definition round_half_even :: "rat \<Rightarrow> int" where
  "round_half_even x =
     (let f = \<lfloor>x\<rfloor>; d = x - of_int f
      in if d < 1 / 2 then f else if 1 / 2 < d then f + 1 else if even f then f else f + 1)"

definition round_pos :: "rat \<Rightarrow> number" where
  "round_pos x =
     (let e = max (floor_log2 x - 52) (- 1074);
          r = of_int (round_half_even (x / pow2 e)) * pow2 e
      in if pow2 1024 \<le> r then PosInf else Fin r)"

fun negate :: "number \<Rightarrow> number" where
  "negate (Fin x) = (if x = 0 then NegZero else Fin (- x))"
| "negate NegZero = Fin 0"
| "negate PosInf = NegInf"
| "negate NegInf = PosInf"
| "negate NaN = NaN"

definition b64 :: "rat \<Rightarrow> number" where
  "b64 x = (if x = 0 then Fin 0 else if 0 < x then round_pos x else negate (round_pos (- x)))"

text \<open>The sign of a number: \<open>True\<close> for negative values and \<open>-0\<close>.\<close>

fun signbit :: "number \<Rightarrow> bool" where
  "signbit (Fin x) = (x < 0)"
| "signbit NegZero = True"
| "signbit PosInf = False"
| "signbit NegInf = True"
| "signbit NaN = False"

fun isZero :: "number \<Rightarrow> bool" where
  "isZero (Fin x) = (x = 0)"
| "isZero NegZero = True"
| "isZero _ = False"

fun isInf :: "number \<Rightarrow> bool" where
  "isInf PosInf = True"
| "isInf NegInf = True"
| "isInf _ = False"

fun ratOf :: "number \<Rightarrow> rat" where
  "ratOf (Fin x) = x"
| "ratOf _ = 0"

text \<open>A zero or infinity of the given sign.\<close>

definition zeroOf :: "bool \<Rightarrow> number" where
  "zeroOf neg = (if neg then NegZero else Fin 0)"

definition infOf :: "bool \<Rightarrow> number" where
  "infOf neg = (if neg then NegInf else PosInf)"

text \<open>\<open>x / y\<close> (Number::divide).\<close>

definition num_div :: "number \<Rightarrow> number \<Rightarrow> number" where
  "num_div x y =
     (let neg = (signbit x \<noteq> signbit y)
      in if x = NaN \<or> y = NaN then NaN
         else if isInf x then (if isInf y then NaN else infOf neg)
         else if isInf y then zeroOf neg
         else if isZero y then (if isZero x then NaN else infOf neg)
         else if isZero x then zeroOf neg
         else b64 (ratOf x / ratOf y))"

text \<open>\<open>x * y\<close> (Number::multiply).\<close>

definition num_mul :: "number \<Rightarrow> number \<Rightarrow> number" where
  "num_mul x y =
     (let neg = (signbit x \<noteq> signbit y)
      in if x = NaN \<or> y = NaN then NaN
         else if isInf x \<or> isInf y then (if isZero x \<or> isZero y then NaN else infOf neg)
         else if isZero x \<or> isZero y then zeroOf neg
         else b64 (ratOf x * ratOf y))"

text \<open>\<open>x + y\<close> (Number::add); an exact zero sum is \<open>+0\<close> unless both operands are \<open>-0\<close>.\<close>

definition num_add :: "number \<Rightarrow> number \<Rightarrow> number" where
  "num_add x y =
     (if x = NaN \<or> y = NaN then NaN
      else if isInf x then (if isInf y \<and> x \<noteq> y then NaN else x)
      else if isInf y then y
      else if x = NegZero \<and> y = NegZero then NegZero
      else b64 (ratOf x + ratOf y))"

text \<open>\<open>Math.round\<close>: the integer nearest to \<open>x\<close>, a tie going towards \<open>+\<infinity>\<close>.\<close>

fun Math_round :: "number \<Rightarrow> number" where
  "Math_round (Fin x) =
     (if x < 0 \<and> - (1 / 2) \<le> x then NegZero else Fin (of_int \<lfloor>x + 1 / 2\<rfloor>))"
| "Math_round n = n"

text \<open>\<open>Math.min\<close> of two numbers: \<open>NaN\<close> if either is, and \<open>-0\<close> below \<open>+0\<close>.\<close>

definition Math_min :: "number \<Rightarrow> number \<Rightarrow> number" where
  "Math_min x y =
     (if x = NaN \<or> y = NaN then NaN
      else if x = NegInf \<or> y = NegInf then NegInf
      else if x = PosInf then y
      else if y = PosInf then x
      else if ratOf x < ratOf y then x
      else if ratOf y < ratOf x then y
      else if x = NegZero then x else y)"

text \<open>The Number of a string's length: lengths are below \<open>2^53\<close>, so the value is exact.\<close>

definition lengthNum :: "jsstring \<Rightarrow> number" where
  "lengthNum s = Fin (of_nat (length s))"

subsection \<open>Number::toString\<close>

text \<open>Decimal digits of a natural number, most significant first.\<close>

function digits :: "nat \<Rightarrow> nat list" where
  "digits n = (if n < 10 then [n] else digits (n div 10) @ [n mod 10])"
  by pat_completeness auto
termination
  by (relation "measure id") auto

declare digits.simps [simp del]

definition digitChar :: "nat \<Rightarrow> cu" where
  "digitChar d = of_nat (48 + d)"

definition natString :: "nat \<Rightarrow> jsstring" where
  "natString n = map digitChar (digits n)"

text \<open>\<open>dec_exp x\<close> is the \<open>n\<close> with \<open>10^(n-1) \<le> x < 10^n\<close>, for \<open>x > 0\<close>.\<close>

definition dec_exp :: "rat \<Rightarrow> int" where
  "dec_exp x =
     (if 1 \<le> x then int (length (digits (nat \<lfloor>x\<rfloor>)))
      else 1 - int (length (digits (nat (\<lceil>1 / x\<rceil> - 1)))))"

text \<open>
  ECMA-262 Number::toString picks integers \<open>n\<close>, \<open>k\<close>, \<open>s\<close> with \<open>k \<ge> 1\<close>,
  \<open>10^(k-1) \<le> s < 10^k\<close>, \<open>s * 10^(n-k)\<close> rounding to \<open>x\<close> and \<open>k\<close> as small as possible;
  among several \<open>s\<close> the one closest to \<open>x\<close>, the even one on a tie. With \<open>k\<close> digits
  only the two multiples of \<open>10^(nx-k)\<close> around \<open>x\<close> can be closest; \<open>candidates\<close> lists
  those that round to \<open>x\<close>, the preferred one first.
\<close>

definition roundsTo :: "rat \<Rightarrow> rat \<Rightarrow> int \<Rightarrow> bool" where
  "roundsTo x u c = (b64 (of_int c * u) = Fin x)"

definition candidates :: "rat \<Rightarrow> int \<Rightarrow> nat \<Rightarrow> int list" where
  "candidates x nx k =
     (let u = pow10 (nx - int k); q = x / u; lo = \<lfloor>q\<rfloor>; hi = \<lceil>q\<rceil>;
          dl = q - of_int lo; dh = of_int hi - q;
          pref = (if dl < dh \<or> (dl = dh \<and> even lo) then [lo, hi] else [hi, lo])
      in filter (roundsTo x u) pref)"

text \<open>
  A finite binary64 value is a multiple of \<open>2^-1074\<close>, so with \<open>nx + 1074\<close> digits the
  decimal expansion is exact and the search stops there at the latest.
\<close>

function shortest :: "rat \<Rightarrow> int \<Rightarrow> nat \<Rightarrow> int \<times> int" where
  "shortest x nx k =
     (case candidates x nx k of
        c # _ \<Rightarrow> (c, nx - int k)
      | [] \<Rightarrow> if nx + 1074 \<le> int k then (\<lfloor>x / pow10 (nx - int k)\<rfloor>, nx - int k)
              else shortest x nx (Suc k))"
  by pat_completeness auto
termination
  by (relation "measure (\<lambda>(x, nx, k). nat (nx + 1074 - int k))") auto

declare shortest.simps [simp del]

text \<open>Trailing zeros of \<open>s\<close> go into the exponent (\<open>10 * 10^e\<close> is \<open>1 * 10^(e+1)\<close>).\<close>

definition stripZeros :: "nat list \<Rightarrow> nat list" where
  "stripZeros ds = rev (dropWhile ((=) 0) (rev ds))"

definition signedExp :: "int \<Rightarrow> jsstring" where
  "signedExp e = (if 0 \<le> e then js ''+'' else js ''-'') @ natString (nat \<bar>e\<bar>)"

definition formatDigits :: "nat list \<Rightarrow> int \<Rightarrow> jsstring" where
  "formatDigits ds n =
     (let k = int (length ds); cs = map digitChar ds
      in if k \<le> n \<and> n \<le> 21 then cs @ replicate (nat (n - k)) (digitChar 0)
         else if 0 < n \<and> n \<le> 21 then take (nat n) cs @ js ''.'' @ drop (nat n) cs
         else if - 6 < n \<and> n \<le> 0 then js ''0.'' @ replicate (nat (- n)) (digitChar 0) @ cs
         else if k = 1 then cs @ js ''e'' @ signedExp (n - 1)
         else take 1 cs @ js ''.'' @ drop 1 cs @ js ''e'' @ signedExp (n - 1))"

fun formatShortest :: "int \<times> int \<Rightarrow> jsstring" where
  "formatShortest (s, e) =
     formatDigits (stripZeros (digits (nat s))) (e + int (length (digits (nat s))))"

definition posToString :: "rat \<Rightarrow> jsstring" where
  "posToString x = formatShortest (shortest x (dec_exp x) 1)"

fun Number_toString :: "number \<Rightarrow> jsstring" where
  "Number_toString NaN = js ''NaN''"
| "Number_toString NegZero = js ''0''"
| "Number_toString PosInf = js ''Infinity''"
| "Number_toString NegInf = js ''-Infinity''"
| "Number_toString (Fin x) =
     (if x = 0 then js ''0'' else if x < 0 then js ''-'' @ posToString (- x) else posToString x)"

section \<open>JSON\<close>

text \<open>
  The values \<open>JSON.parse\<close> returns. An object is its list of own properties in
  property order (ECMA-262 OrdinaryOwnPropertyKeys): array-index keys in ascending
  numeric order, then the other keys in order of creation.
\<close>

datatype json =
    JNull
  | JBool bool
  | JNum number
  | JStr jsstring
  | JArr "json list"
  | JObj "(jsstring \<times> json) list"

subsection \<open>Lexical grammar (ECMA-404)\<close>

definition isJsonSpace :: "cu \<Rightarrow> bool" where
  "isJsonSpace c = (c = 0x20 \<or> c = 0x09 \<or> c = 0x0A \<or> c = 0x0D)"

definition isDigit :: "cu \<Rightarrow> bool" where
  "isDigit c = (0x30 \<le> c \<and> c \<le> 0x39)"

definition digitVal :: "cu \<Rightarrow> nat" where
  "digitVal c = unat c - 48"

fun decVal :: "nat \<Rightarrow> jsstring \<Rightarrow> nat" where
  "decVal acc [] = acc"
| "decVal acc (c # cs) = decVal (10 * acc + digitVal c) cs"

definition hexVal :: "cu \<Rightarrow> nat option" where
  "hexVal c =
     (if 0x30 \<le> c \<and> c \<le> 0x39 then Some (unat c - 48)
      else if 0x41 \<le> c \<and> c \<le> 0x46 then Some (unat c - 55)
      else if 0x61 \<le> c \<and> c \<le> 0x66 then Some (unat c - 87)
      else None)"

fun hex4 :: "jsstring \<Rightarrow> cu option" where
  "hex4 (a # b # c # d # _) =
     (case (hexVal a, hexVal b, hexVal c, hexVal d) of
        (Some x, Some y, Some z, Some w) \<Rightarrow> Some (of_nat (4096 * x + 256 * y + 16 * z + w))
      | _ \<Rightarrow> None)"
| "hex4 _ = None"

definition simpleEscape :: "cu \<Rightarrow> cu option" where
  "simpleEscape e =
     (if e = 0x22 then Some 0x22 else if e = 0x5C then Some 0x5C
      else if e = 0x2F then Some 0x2F else if e = 0x62 then Some 0x08
      else if e = 0x66 then Some 0x0C else if e = 0x6E then Some 0x0A
      else if e = 0x72 then Some 0x0D else if e = 0x74 then Some 0x09
      else None)"

fun consChar :: "cu \<Rightarrow> (jsstring \<times> jsstring) option \<Rightarrow> (jsstring \<times> jsstring) option" where
  "consChar c None = None"
| "consChar c (Some (s, r)) = Some (c # s, r)"

text \<open>
  \<open>lexString\<close> reads a string body after its opening quote and returns the string's
  value and the input after the closing quote.
\<close>

fun lexString :: "jsstring \<Rightarrow> (jsstring \<times> jsstring) option" where
  "lexString [] = None"
| "lexString (c # cs) =
     (if c = 0x22 then Some ([], cs)
      else if c = 0x5C then
        (case cs of
           [] \<Rightarrow> None
         | e # r \<Rightarrow>
             if e = 0x75 then
               (case hex4 r of None \<Rightarrow> None | Some u \<Rightarrow> consChar u (lexString (drop 4 r)))
             else
               (case simpleEscape e of None \<Rightarrow> None | Some u \<Rightarrow> consChar u (lexString r)))
      else if c < 0x20 then None
      else consChar c (lexString cs))"

text \<open>
  A number is \<open>-? (0 | [1-9][0-9]*) (. [0-9]+)? ([eE] [+-]? [0-9]+)?\<close>; its value is
  the binary64 value nearest to the decimal it denotes, \<open>-0\<close> for a negated zero.
\<close>

definition lexInt :: "jsstring \<Rightarrow> (jsstring \<times> jsstring) option" where
  "lexInt cs =
     (case cs of
        [] \<Rightarrow> None
      | c # r \<Rightarrow>
          if c = 0x30 then Some ([c], r)
          else if isDigit c then Some (takeWhile isDigit cs, dropWhile isDigit cs)
          else None)"

definition lexFrac :: "jsstring \<Rightarrow> (jsstring \<times> jsstring) option" where
  "lexFrac cs =
     (case cs of
        [] \<Rightarrow> Some ([], cs)
      | c # r \<Rightarrow>
          if c = 0x2E then
            (if takeWhile isDigit r = [] then None
             else Some (takeWhile isDigit r, dropWhile isDigit r))
          else Some ([], cs))"

definition lexExpDigits :: "bool \<Rightarrow> jsstring \<Rightarrow> (int \<times> jsstring) option" where
  "lexExpDigits neg cs =
     (if takeWhile isDigit cs = [] then None
      else Some ((if neg then - int (decVal 0 (takeWhile isDigit cs))
                  else int (decVal 0 (takeWhile isDigit cs))), dropWhile isDigit cs))"

definition lexExp :: "jsstring \<Rightarrow> (int \<times> jsstring) option" where
  "lexExp cs =
     (case cs of
        [] \<Rightarrow> Some (0, cs)
      | c # r \<Rightarrow>
          if c = 0x65 \<or> c = 0x45 then
            (case r of
               [] \<Rightarrow> None
             | d # r' \<Rightarrow>
                 if d = 0x2B then lexExpDigits False r'
                 else if d = 0x2D then lexExpDigits True r'
                 else lexExpDigits False r)
          else Some (0, cs))"

definition numberValue :: "bool \<Rightarrow> jsstring \<Rightarrow> jsstring \<Rightarrow> int \<Rightarrow> number" where
  "numberValue neg ip fp ex =
     (if decVal 0 (ip @ fp) = 0 then zeroOf neg
      else if neg then negate (b64 (of_nat (decVal 0 (ip @ fp)) * pow10 (ex - int (length fp))))
      else b64 (of_nat (decVal 0 (ip @ fp)) * pow10 (ex - int (length fp))))"

definition lexUnsigned :: "bool \<Rightarrow> jsstring \<Rightarrow> (number \<times> jsstring) option" where
  "lexUnsigned neg cs =
     (case lexInt cs of
        None \<Rightarrow> None
      | Some (ip, r1) \<Rightarrow>
          (case lexFrac r1 of
             None \<Rightarrow> None
           | Some (fp, r2) \<Rightarrow>
               (case lexExp r2 of
                  None \<Rightarrow> None
                | Some (ex, r3) \<Rightarrow> Some (numberValue neg ip fp ex, r3))))"

definition lexNumber :: "jsstring \<Rightarrow> (number \<times> jsstring) option" where
  "lexNumber cs =
     (case cs of
        [] \<Rightarrow> None
      | c # r \<Rightarrow> if c = 0x2D then lexUnsigned True r else lexUnsigned False cs)"

datatype token =
    TLBrace | TRBrace | TLBracket | TRBracket | TComma | TColon
  | TString jsstring | TNumber number | TTrue | TFalse | TNull

fun consTok :: "token \<Rightarrow> token list option \<Rightarrow> token list option" where
  "consTok t None = None"
| "consTok t (Some ts) = Some (t # ts)"

lemma lexString_shorter: "lexString cs = Some (s, r) \<Longrightarrow> length r < length cs"
proof (induction cs arbitrary: s r rule: lexString.induct)
  case 1
  then show ?case by simp
next
  case (2 c cs)
  show ?case
  proof (cases "c = 0x22")
    case True
    with "2.prems" show ?thesis by simp
  next
    case notq: False
    show ?thesis
    proof (cases "c = 0x5C")
      case bs: True
      then obtain e r0 where cs: "cs = e # r0"
        using "2.prems" notq by (cases cs) auto
      show ?thesis
      proof (cases "e = 0x75")
        case True
        then obtain u s' where h: "hex4 r0 = Some u" and rec: "lexString (drop 4 r0) = Some (s', r)"
          using "2.prems" notq bs cs
          by (auto split: option.splits elim!: consChar.elims)
        from "2.IH"(1) [OF notq bs cs True h rec] show ?thesis
          using cs by simp
      next
        case False
        then obtain u s' where h: "simpleEscape e = Some u" and rec: "lexString r0 = Some (s', r)"
          using "2.prems" notq bs cs
          by (auto split: option.splits elim!: consChar.elims)
        from "2.IH"(2) [OF notq bs cs False h rec] show ?thesis
          using cs by simp
      qed
    next
      case nbs: False
      then have lo: "\<not> c < 0x20" and "\<exists>s'. lexString cs = Some (s', r)"
        using "2.prems" notq by (auto split: if_splits elim!: consChar.elims)
      then obtain s' where rec: "lexString cs = Some (s', r)" by blast
      from "2.IH"(3) [OF notq nbs lo rec] show ?thesis by simp
    qed
  qed
qed

lemma length_dropWhile_le': "length (dropWhile P xs) \<le> length xs"
  by (induction xs) auto

lemma lexInt_shorter: "lexInt cs = Some (ip, r) \<Longrightarrow> length r < length cs"
  using length_dropWhile_le' [of isDigit "tl cs"]
  by (cases cs) (auto simp: lexInt_def split: if_splits)

lemma lexFrac_shorter: "lexFrac cs = Some (fp, r) \<Longrightarrow> length r \<le> length cs"
  using length_dropWhile_le' [of isDigit "tl cs"]
  by (cases cs) (auto simp: lexFrac_def split: if_splits)

lemma lexExpDigits_shorter: "lexExpDigits neg cs = Some (ex, r) \<Longrightarrow> length r \<le> length cs"
  using length_dropWhile_le' [of isDigit cs]
  by (auto simp: lexExpDigits_def split: if_splits)

lemma lexExp_shorter: "lexExp cs = Some (ex, r) \<Longrightarrow> length r \<le> length cs"
  by (cases cs; cases "tl cs")
    (auto simp: lexExp_def split: if_splits dest!: lexExpDigits_shorter)

lemma lexUnsigned_shorter: "lexUnsigned neg cs = Some (n, r) \<Longrightarrow> length r < length cs"
  by (fastforce simp: lexUnsigned_def split: option.splits
      dest: lexInt_shorter lexFrac_shorter lexExp_shorter)

lemma lexNumber_shorter: "lexNumber (c # cs) = Some (n, r) \<Longrightarrow> length r \<le> length cs"
  by (fastforce simp: lexNumber_def split: if_splits dest: lexUnsigned_shorter)

function tokenize :: "jsstring \<Rightarrow> token list option" where
  "tokenize [] = Some []"
| "tokenize (c # cs) =
     (if isJsonSpace c then tokenize cs
      else if c = 0x7B then consTok TLBrace (tokenize cs)
      else if c = 0x7D then consTok TRBrace (tokenize cs)
      else if c = 0x5B then consTok TLBracket (tokenize cs)
      else if c = 0x5D then consTok TRBracket (tokenize cs)
      else if c = 0x2C then consTok TComma (tokenize cs)
      else if c = 0x3A then consTok TColon (tokenize cs)
      else if c = 0x22 then
        (case lexString cs of None \<Rightarrow> None | Some (s, r) \<Rightarrow> consTok (TString s) (tokenize r))
      else if c = 0x2D \<or> isDigit c then
        (case lexNumber (c # cs) of
           None \<Rightarrow> None
         | Some (n, r) \<Rightarrow> consTok (TNumber n) (tokenize r))
      else if startsWith (c # cs) (js ''true'') then consTok TTrue (tokenize (drop 3 cs))
      else if startsWith (c # cs) (js ''false'') then consTok TFalse (tokenize (drop 4 cs))
      else if startsWith (c # cs) (js ''null'') then consTok TNull (tokenize (drop 3 cs))
      else None)"
  by pat_completeness auto
termination
  by (relation "measure length")
    (auto dest: lexString_shorter lexNumber_shorter simp: le_imp_less_Suc)

subsection \<open>Objects\<close>

text \<open>
  An array index is the canonical decimal string of an integer below \<open>2^32 - 1\<close>.
\<close>

definition isArrayIndex :: "jsstring \<Rightarrow> bool" where
  "isArrayIndex k =
     (k \<noteq> [] \<and> list_all isDigit k \<and> (hd k = 0x30 \<longrightarrow> length k = 1)
      \<and> decVal 0 k < 4294967295)"

text \<open>
  \<open>objInsert\<close> creates a property: an array index goes before the first key that is
  not an array index or is a larger one, any other key at the end.
\<close>

fun insertIndex :: "jsstring \<Rightarrow> json \<Rightarrow> (jsstring \<times> json) list \<Rightarrow> (jsstring \<times> json) list" where
  "insertIndex k v [] = [(k, v)]"
| "insertIndex k v ((k', v') # ms) =
     (if isArrayIndex k' \<and> decVal 0 k' < decVal 0 k then (k', v') # insertIndex k v ms
      else (k, v) # (k', v') # ms)"

definition objInsert :: "jsstring \<Rightarrow> json \<Rightarrow> (jsstring \<times> json) list \<Rightarrow> (jsstring \<times> json) list" where
  "objInsert k v ms = (if isArrayIndex k then insertIndex k v ms else ms @ [(k, v)])"

fun objUpdate :: "jsstring \<Rightarrow> json \<Rightarrow> (jsstring \<times> json) list \<Rightarrow> (jsstring \<times> json) list" where
  "objUpdate k v [] = []"
| "objUpdate k v ((k', v') # ms) =
     (if k' = k then (k, v) # ms else (k', v') # objUpdate k v ms)"

text \<open>CreateDataProperty: a duplicate key keeps its place and takes the new value.\<close>

definition objSet :: "(jsstring \<times> json) list \<Rightarrow> jsstring \<Rightarrow> json \<Rightarrow> (jsstring \<times> json) list" where
  "objSet ms k v = (if map_of ms k = None then objInsert k v ms else objUpdate k v ms)"

subsection \<open>JSON.parse\<close>

text \<open>
  The syntactic grammar, read token by token with a stack of the arrays and objects
  still open. \<open>FArr es\<close> is an array with elements \<open>es\<close> so far, \<open>FObj ms\<close> an object
  with members \<open>ms\<close> so far, \<open>FMember ms k\<close> the same after the key \<open>k\<close> was read.
\<close>

datatype frame =
    FArr "json list"
  | FObj "(jsstring \<times> json) list"
  | FMember "(jsstring \<times> json) list" jsstring

datatype pmode = PValue | PValueOrClose | PKeyOrClose | PKey | PColon | PComma | PDone json

text \<open>A finished value becomes the result, an array element or a member's value.\<close>

fun complete :: "json \<Rightarrow> frame list \<Rightarrow> (pmode \<times> frame list) option" where
  "complete v [] = Some (PDone v, [])"
| "complete v (FArr es # st) = Some (PComma, FArr (es @ [v]) # st)"
| "complete v (FMember ms k # st) = Some (PComma, FObj (objSet ms k v) # st)"
| "complete v (FObj ms # st) = None"

fun startValue :: "frame list \<Rightarrow> token \<Rightarrow> (pmode \<times> frame list) option" where
  "startValue st TLBrace = Some (PKeyOrClose, FObj [] # st)"
| "startValue st TLBracket = Some (PValueOrClose, FArr [] # st)"
| "startValue st (TString s) = complete (JStr s) st"
| "startValue st (TNumber n) = complete (JNum n) st"
| "startValue st TTrue = complete (JBool True) st"
| "startValue st TFalse = complete (JBool False) st"
| "startValue st TNull = complete JNull st"
| "startValue st _ = None"

fun closeFrame :: "frame list \<Rightarrow> token \<Rightarrow> (pmode \<times> frame list) option" where
  "closeFrame (FArr es # st) TRBracket = complete (JArr es) st"
| "closeFrame (FObj ms # st) TRBrace = complete (JObj ms) st"
| "closeFrame _ _ = None"

fun readKey :: "frame list \<Rightarrow> token \<Rightarrow> (pmode \<times> frame list) option" where
  "readKey (FObj ms # st) (TString k) = Some (PColon, FMember ms k # st)"
| "readKey _ _ = None"

fun afterComma :: "frame list \<Rightarrow> (pmode \<times> frame list) option" where
  "afterComma (FArr es # st) = Some (PValue, FArr es # st)"
| "afterComma (FObj ms # st) = Some (PKey, FObj ms # st)"
| "afterComma _ = None"

fun step :: "pmode \<Rightarrow> frame list \<Rightarrow> token \<Rightarrow> (pmode \<times> frame list) option" where
  "step PValue st t = startValue st t"
| "step PValueOrClose st t = (if t = TRBracket then closeFrame st t else startValue st t)"
| "step PKeyOrClose st t = (if t = TRBrace then closeFrame st t else readKey st t)"
| "step PKey st t = readKey st t"
| "step PColon st t = (if t = TColon then Some (PValue, st) else None)"
| "step PComma st t = (if t = TComma then afterComma st else closeFrame st t)"
| "step (PDone v) st t = None"

fun parseTokens :: "pmode \<Rightarrow> frame list \<Rightarrow> token list \<Rightarrow> json option" where
  "parseTokens (PDone v) st [] = Some v"
| "parseTokens m st [] = None"
| "parseTokens m st (t # ts) =
     (case step m st t of None \<Rightarrow> None | Some (m', st') \<Rightarrow> parseTokens m' st' ts)"

text \<open>
  \<open>JSON.parse\<close> throws a SyntaxError on text outside the grammar. The wording of its
  message is left to the engine; here it is the fixed text below followed by the input.
\<close>

definition syntaxErrorMessage :: "jsstring \<Rightarrow> jsstring" where
  "syntaxErrorMessage s = js ''Unexpected token in JSON: '' @ s"

definition parseText :: "jsstring \<Rightarrow> json option" where
  "parseText s = (case tokenize s of None \<Rightarrow> None | Some ts \<Rightarrow> parseTokens PValue [] ts)"

definition JSON_parse :: "jsstring \<Rightarrow> jsstring + json" where
  "JSON_parse s = (case parseText s of None \<Rightarrow> Inl (syntaxErrorMessage s) | Some v \<Rightarrow> Inr v)"

subsection \<open>JSON.stringify with a two-space gap\<close>

definition hexDigit :: "nat \<Rightarrow> cu" where
  "hexDigit d = (if d < 10 then of_nat (48 + d) else of_nat (87 + d))"

definition unicodeEscape :: "cu \<Rightarrow> jsstring" where
  "unicodeEscape c =
     [0x5C, 0x75] @ [hexDigit (unat c div 4096), hexDigit (unat c div 256 mod 16),
                  hexDigit (unat c div 16 mod 16), hexDigit (unat c mod 16)]"

definition isHighSurrogate :: "cu \<Rightarrow> bool" where
  "isHighSurrogate c = (0xD800 \<le> c \<and> c \<le> 0xDBFF)"

definition isLowSurrogate :: "cu \<Rightarrow> bool" where
  "isLowSurrogate c = (0xDC00 \<le> c \<and> c \<le> 0xDFFF)"

text \<open>
  QuoteJSONString goes through the code points of the string: the seven characters with
  a short escape, other control characters and lone surrogates as \<open>\uXXXX\<close>, the rest
  as they are.
\<close>

fun quoteChars :: "jsstring \<Rightarrow> jsstring" where
  "quoteChars [] = []"
| "quoteChars (c # cs) =
     (if c = 0x08 then [0x5C, 0x62] @ quoteChars cs
      else if c = 0x09 then [0x5C, 0x74] @ quoteChars cs
      else if c = 0x0A then [0x5C, 0x6E] @ quoteChars cs
      else if c = 0x0C then [0x5C, 0x66] @ quoteChars cs
      else if c = 0x0D then [0x5C, 0x72] @ quoteChars cs
      else if c = 0x22 then [0x5C, 0x22] @ quoteChars cs
      else if c = 0x5C then [0x5C, 0x5C] @ quoteChars cs
      else if c < 0x20 then unicodeEscape c @ quoteChars cs
      else if isHighSurrogate c then
        (case cs of
           [] \<Rightarrow> unicodeEscape c
         | d # ds \<Rightarrow>
             if isLowSurrogate d then c # d # quoteChars ds
             else unicodeEscape c @ quoteChars cs)
      else if isLowSurrogate c then unicodeEscape c @ quoteChars cs
      else c # quoteChars cs)"

definition QuoteJSONString :: "jsstring \<Rightarrow> jsstring" where
  "QuoteJSONString s = [0x22] @ quoteChars s @ [0x22]"

definition gap :: jsstring where "gap = js ''  ''"

text \<open>
  SerializeJSONProperty, SerializeJSONArray and SerializeJSONObject with the gap
  \<open>gap\<close>; \<open>ind\<close> is the current indent. A number that is not finite is written \<open>null\<close>.
\<close>

fun serialize :: "jsstring \<Rightarrow> json \<Rightarrow> jsstring"
  and serializeElements :: "jsstring \<Rightarrow> json list \<Rightarrow> jsstring"
  and serializeMembers :: "jsstring \<Rightarrow> (jsstring \<times> json) list \<Rightarrow> jsstring" where
  "serialize ind JNull = js ''null''"
| "serialize ind (JBool b) = (if b then js ''true'' else js ''false'')"
| "serialize ind (JNum n) =
     (if n = NaN \<or> n = PosInf \<or> n = NegInf then js ''null'' else Number_toString n)"
| "serialize ind (JStr s) = QuoteJSONString s"
| "serialize ind (JArr es) =
     (if es = [] then js ''[]''
      else js ''['' @ [LF] @ ind @ gap @ serializeElements (ind @ gap) es @ [LF] @ ind @ js '']'')"
| "serialize ind (JObj ms) =
     (if ms = [] then js ''{}''
      else js ''{'' @ [LF] @ ind @ gap @ serializeMembers (ind @ gap) ms @ [LF] @ ind @ js ''}'')"
| "serializeElements ind [] = []"
| "serializeElements ind (v # vs) =
     (if vs = [] then serialize ind v
      else serialize ind v @ js '','' @ [LF] @ ind @ serializeElements ind vs)"
| "serializeMembers ind [] = []"
| "serializeMembers ind ((k, v) # ms) =
     (if ms = [] then QuoteJSONString k @ js '': '' @ serialize ind v
      else QuoteJSONString k @ js '': '' @ serialize ind v @ js '','' @ [LF] @ ind
           @ serializeMembers ind ms)"

text \<open>\<^verbatim>\<open>JSON.stringify(value, null, 2)\<close>\<close>

definition JSON_stringify2 :: "json \<Rightarrow> jsstring" where
  "JSON_stringify2 v = serialize [] v"

subsection \<open>Reading properties, truthiness and string conversion\<close>

text \<open>
  \<open>v.name\<close> on a value that is neither \<open>null\<close> nor \<open>undefined\<close>, for a name that is no
  array index and that no prototype defines (\<open>choices\<close>, \<open>delta\<close>, \<open>content\<close>):
  only an object can have it. \<open>None\<close> is \<open>undefined\<close>.
\<close>

fun getNamed :: "json \<Rightarrow> jsstring \<Rightarrow> json option" where
  "getNamed (JObj ms) k = map_of ms k"
| "getNamed _ k = None"

text \<open>\<open>v[0]\<close>: the first element of an array, the first code unit of a string.\<close>

fun getIndex0 :: "json \<Rightarrow> json option" where
  "getIndex0 (JObj ms) = map_of ms (js ''0'')"
| "getIndex0 (JArr es) = (case es of [] \<Rightarrow> None | e # _ \<Rightarrow> Some e)"
| "getIndex0 (JStr s) = (case s of [] \<Rightarrow> None | c # _ \<Rightarrow> Some (JStr [c]))"
| "getIndex0 _ = None"

fun truthy :: "json \<Rightarrow> bool" where
  "truthy JNull = False"
| "truthy (JBool b) = b"
| "truthy (JNum n) = (\<not> isZero n \<and> n \<noteq> NaN)"
| "truthy (JStr s) = (s \<noteq> [])"
| "truthy (JArr es) = True"
| "truthy (JObj ms) = True"

text \<open>
  ToString, as string concatenation applies it (ToPrimitive, then OrdinaryToPrimitive):
  an array is its elements joined with commas (\<open>null\<close> elements empty), an object is
  \<open>[object Object]\<close>. An object read by \<open>JSON.parse\<close> that has a member \<open>toString\<close>
  of its own has no callable \<open>toString\<close>, and \<open>valueOf\<close> gives no primitive: the
  conversion throws a TypeError, which is \<open>None\<close>.
\<close>

fun ToString :: "json \<Rightarrow> jsstring option"
  and joinElements :: "json list \<Rightarrow> jsstring option" where
  "ToString JNull = Some (js ''null'')"
| "ToString (JBool b) = Some (if b then js ''true'' else js ''false'')"
| "ToString (JNum n) = Some (Number_toString n)"
| "ToString (JStr s) = Some s"
| "ToString (JArr es) = joinElements es"
| "ToString (JObj ms) =
     (if map_of ms (js ''toString'') = None then Some (js ''[object Object]'') else None)"
| "joinElements [] = Some []"
| "joinElements (v # vs) =
     (case (if v = JNull then Some [] else ToString v) of
        None \<Rightarrow> None
      | Some s \<Rightarrow>
          if vs = [] then Some s
          else (case joinElements vs of None \<Rightarrow> None | Some r \<Rightarrow> Some (s @ js '','' @ r)))"

section \<open>translate\<close>

subsection \<open>What the function receives from its environment\<close>

text \<open>
  A thrown value: an \<open>Error\<close> instance with its message (a \<open>DOMException\<close> apart,
  with its name and message), or a value that is no \<open>Error\<close> instance.
\<close>

datatype thrown =
    ErrorObj jsstring
  | DOMExceptionObj jsstring jsstring
  | NonError

text \<open>
  One \<open>await reader.read()\<close>: a fragment (given as the text \<open>TextDecoder\<close> decodes it
  to), the end of the stream, or a rejection. A reader is the sequence of what its
  successive reads settle to.
\<close>

datatype read_result = Chunk jsstring | Done | ReadFails thrown

type_synonym reader = "nat \<Rightarrow> read_result"

record response =
  status :: nat
  body :: "reader option"

text \<open>\<open>Response.ok\<close> (Fetch standard): the status is in the range 200 to 299.\<close>

definition ok :: "response \<Rightarrow> bool" where
  "ok r = (200 \<le> status r \<and> status r \<le> 299)"

datatype fetch_result = FetchFails thrown | FetchResponse response

text \<open>
  The awaits of a call are numbered: 0 is \<open>fetch\<close>, \<open>i + 1\<close> is read \<open>i\<close>. An
  \<open>AbortSignal\<close> is not aborted at first and stays aborted once it is; \<open>AbortedFrom n\<close>
  is a signal that is aborted when await \<open>n\<close> settles and later, \<open>NeverAborted\<close> one
  that stays as it is. \<open>aborted sig t\<close> is \<^verbatim>\<open>signal?.aborted\<close> read after await \<open>t\<close>.
\<close>

datatype signal = NeverAborted | AbortedFrom nat

fun aborted :: "signal option \<Rightarrow> nat \<Rightarrow> bool" where
  "aborted None t = False"
| "aborted (Some NeverAborted) t = False"
| "aborted (Some (AbortedFrom n)) t = (n \<le> t)"

text \<open>
  A callback is given by what its successive invocations do: return (\<open>None\<close>) or
  throw. The arguments it is called with are recorded in the result.
\<close>

type_synonym callback = "nat \<Rightarrow> thrown option"

record environment =
  API_URL :: "jsstring option"
  API_KEY :: "jsstring option"
  fetch :: fetch_result

datatype outcome = Resolves jsstring | Rejects thrown

record loop_state =
  fullContent :: jsstring
  tokenCount :: number
  progressCalls :: "number list"
  streamCalls :: "jsstring list"

subsection \<open>One line of a fragment\<close>

text \<open>
  \<^verbatim>\<open>parsedData.choices[0]?.delta?.content || ''\<close>, converted to a string by \<open>+=\<close>.
  \<open>None\<close> is the TypeError of reading a property of \<open>null\<close> or \<open>undefined\<close>, or of
  the conversion to a string.
\<close>

definition optionalNamed :: "json option \<Rightarrow> jsstring \<Rightarrow> json option" where
  "optionalNamed v k =
     (case v of None \<Rightarrow> None | Some x \<Rightarrow> if x = JNull then None else getNamed x k)"

definition orEmpty :: "json option \<Rightarrow> jsstring option" where
  "orEmpty v =
     (case v of None \<Rightarrow> Some [] | Some x \<Rightarrow> if truthy x then ToString x else Some [])"

definition deltaContent :: "json \<Rightarrow> jsstring option" where
  "deltaContent parsedData =
     (if parsedData = JNull then None
      else (case getNamed parsedData (js ''choices'') of
              None \<Rightarrow> None
            | Some choices \<Rightarrow>
                if choices = JNull then None
                else orEmpty (optionalNamed (optionalNamed (getIndex0 choices)
                                (js ''delta'')) (js ''content''))))"

text \<open>
  What a line adds to \<open>content\<close>: nothing unless it starts with \<open>data: \<close>; nothing for
  \<open>[DONE]\<close>; nothing when \<open>JSON.parse\<close>, the property access or the conversion to a
  string throws (the \<open>catch\<close> logs and goes on to the next line).
\<close>

definition lineContent :: "jsstring \<Rightarrow> jsstring" where
  "lineContent line =
     (if startsWith line (js ''data: '') then
        (if drop 6 line = js ''[DONE]'' then []
         else (case JSON_parse (drop 6 line) of
                 Inl e \<Rightarrow> []
               | Inr parsedData \<Rightarrow>
                   (case deltaContent parsedData of None \<Rightarrow> [] | Some c \<Rightarrow> c)))
      else [])"

fun linesContent :: "jsstring list \<Rightarrow> jsstring" where
  "linesContent [] = []"
| "linesContent (line # lines) = lineContent line @ linesContent lines"

definition chunkContent :: "jsstring \<Rightarrow> jsstring" where
  "chunkContent chunk = linesContent (split LF chunk)"

subsection \<open>One fragment\<close>

definition progressOf :: "number \<Rightarrow> number \<Rightarrow> number" where
  "progressOf tokens estimatedTokens =
     Math_min (Math_round (num_mul (num_div tokens estimatedTokens) (Fin 100))) (Fin 100)"

text \<open>An optional callback called for the \<open>i\<close>-th time: \<open>None\<close> when it returns.\<close>

definition invoke :: "callback option \<Rightarrow> nat \<Rightarrow> thrown option" where
  "invoke cb i = (case cb of None \<Rightarrow> None | Some f \<Rightarrow> f i)"

definition record_call :: "callback option \<Rightarrow> 'a \<Rightarrow> 'a list \<Rightarrow> 'a list" where
  "record_call cb x calls = (case cb of None \<Rightarrow> calls | Some f \<Rightarrow> calls @ [x])"

text \<open>The state after the two assignments that follow the loop over the lines.\<close>

definition accumulate :: "loop_state \<Rightarrow> jsstring \<Rightarrow> loop_state" where
  "accumulate st content =
     st\<lparr>fullContent := fullContent st @ content,
        tokenCount := num_add (tokenCount st) (num_div (lengthNum content) (Fin 4))\<rparr>"

definition reportProgress :: "callback option \<Rightarrow> number \<Rightarrow> loop_state \<Rightarrow> loop_state" where
  "reportProgress onProgress estimatedTokens st =
     st\<lparr>progressCalls :=
          record_call onProgress (progressOf (tokenCount st) estimatedTokens) (progressCalls st)\<rparr>"

definition reportStream :: "callback option \<Rightarrow> loop_state \<Rightarrow> loop_state" where
  "reportStream onStream st =
     st\<lparr>streamCalls := record_call onStream (fullContent st) (streamCalls st)\<rparr>"

text \<open>
  The body of the loop for fragment \<open>i\<close>: the state after it, with the value thrown
  by a callback if one throws.
\<close>

definition processChunk ::
  "callback option \<Rightarrow> callback option \<Rightarrow> number \<Rightarrow> nat \<Rightarrow> loop_state \<Rightarrow> jsstring
     \<Rightarrow> thrown option \<times> loop_state" where
  "processChunk onProgress onStream estimatedTokens i st chunk =
     (case invoke onProgress i of
        Some e \<Rightarrow>
          (Some e, reportProgress onProgress estimatedTokens (accumulate st (chunkContent chunk)))
      | None \<Rightarrow>
          (invoke onStream i,
           reportStream onStream
             (reportProgress onProgress estimatedTokens (accumulate st (chunkContent chunk)))))"

subsection \<open>The loop over the fragments\<close>

text \<open>
  \<^verbatim>\<open>while (true) { const { done, value } = await reader.read(); if (done) break; ... }\<close>
  from read \<open>i\<close> on. The loop ends when a read reports the end of the stream, or with
  the value thrown by a read or a callback; the result carries the number of the last
  await. On a reader that delivers fragments for ever the loop does not end: \<open>None\<close>.
\<close>

partial_function (option) readLoop ::
  "reader \<Rightarrow> callback option \<Rightarrow> callback option \<Rightarrow> number \<Rightarrow> nat \<Rightarrow> loop_state
     \<Rightarrow> (thrown option \<times> nat \<times> loop_state) option" where
  "readLoop rd onProgress onStream estimatedTokens i st =
     (case rd i of
        Done \<Rightarrow> Some (None, Suc i, st)
      | ReadFails e \<Rightarrow> Some (Some e, Suc i, st)
      | Chunk chunk \<Rightarrow>
          (case processChunk onProgress onStream estimatedTokens i st chunk of
             (Some e, st') \<Rightarrow> Some (Some e, Suc i, st')
           | (None, st') \<Rightarrow> readLoop rd onProgress onStream estimatedTokens (Suc i) st'))"

subsection \<open>The two catch clauses and the function\<close>

text \<open>
  The outer \<open>catch\<close>, entered after await \<open>t\<close>: an aborted signal or an \<open>AbortError\<close>
  makes the call return the empty string; an \<open>Error\<close> is thrown again, anything else
  is replaced.
\<close>

fun isAbortError :: "thrown \<Rightarrow> bool" where
  "isAbortError (DOMExceptionObj name message) = (name = js ''AbortError'')"
| "isAbortError _ = False"

fun rethrow :: "thrown \<Rightarrow> outcome" where
  "rethrow NonError = Rejects (ErrorObj (js ''Unknown error occurred''))"
| "rethrow e = Rejects e"

definition catchHandler :: "signal option \<Rightarrow> nat \<Rightarrow> thrown \<Rightarrow> outcome" where
  "catchHandler sig t e = (if aborted sig t \<or> isAbortError e then Resolves [] else rethrow e)"

text \<open>
  After the loop: the content is cleaned, parsed and written again. The inner \<open>catch\<close>
  returns the empty string for an aborted signal, and otherwise throws the format
  error, which the outer \<open>catch\<close> receives.
\<close>

definition validate :: "signal option \<Rightarrow> nat \<Rightarrow> jsstring \<Rightarrow> outcome" where
  "validate sig t content =
     (case JSON_parse (cleanJsonString content) of
        Inr parsedJson \<Rightarrow> Resolves (JSON_stringify2 parsedJson)
      | Inl message \<Rightarrow>
          if aborted sig t then Resolves []
          else catchHandler sig t
                 (ErrorObj (js ''Invalid translation result format: '' @ message)))"

record result =
  outcome :: outcome
  progressValues :: "number list"
  streamValues :: "jsstring list"

definition settle :: "outcome \<Rightarrow> loop_state \<Rightarrow> result" where
  "settle out st =
     \<lparr>outcome = out, progressValues = progressCalls st, streamValues = streamCalls st\<rparr>"

definition initialState :: loop_state where
  "initialState =
     \<lparr>fullContent = [], tokenCount = Fin 0, progressCalls = [], streamCalls = []\<rparr>"

text \<open>What the call settles to once the loop has ended.\<close>

fun afterLoop :: "signal option \<Rightarrow> thrown option \<times> nat \<times> loop_state \<Rightarrow> result" where
  "afterLoop sig (Some e, t, st) = settle (catchHandler sig t e) st"
| "afterLoop sig (None, t, st) = settle (validate sig t (fullContent st)) st"

text \<open>A value of \<open>process.env\<close> is falsy when it is missing or empty.\<close>

fun falsy :: "jsstring option \<Rightarrow> bool" where
  "falsy None = True"
| "falsy (Some s) = (s = [])"

text \<open>\<^verbatim>\<open>const estimatedTokens = text.length / 4\<close>\<close>

definition estimated :: "jsstring \<Rightarrow> number" where
  "estimated text = num_div (lengthNum text) (Fin 4)"

text \<open>
  \<open>translate\<close>: \<open>None\<close> when the call never settles. The request sent to \<open>fetch\<close>
  (the prompt with \<open>targetLang\<close> and \<open>text\<close>) does not enter the result; what the
  endpoint answers to it is \<open>fetch env\<close>.
\<close>

definition translate ::
  "environment \<Rightarrow> jsstring \<Rightarrow> jsstring \<Rightarrow> signal option \<Rightarrow> callback option \<Rightarrow> callback option
     \<Rightarrow> result option" where
  "translate env text targetLang sig onProgress onStream =
     (if falsy (API_KEY env) then
        Some (settle (Rejects (ErrorObj (js ''API_KEY not configured''))) initialState)
      else if falsy (API_URL env) then
        Some (settle (Rejects (ErrorObj (js ''API_URL not configured''))) initialState)
      else
        (case fetch env of
           FetchFails e \<Rightarrow> Some (settle (catchHandler sig 0 e) initialState)
         | FetchResponse r \<Rightarrow>
             if \<not> ok r then
               Some (settle (catchHandler sig 0
                 (if status r = 401 then ErrorObj (js ''Invalid or expired API Key'')
                  else if status r = 429 then ErrorObj (js ''API call limit reached'')
                  else ErrorObj (js ''API request failed with status '' @ natString (status r))))
                 initialState)
             else
               (case body r of
                  None \<Rightarrow>
                    Some (settle (catchHandler sig 0 (ErrorObj (js ''Stream not supported'')))
                      initialState)
                | Some rd \<Rightarrow>
                    map_option (afterLoop sig)
                      (readLoop rd onProgress onStream (estimated text) 0 initialState))))"

subsection \<open>Streams that complete\<close>

text \<open>
  \<open>delivers rd chunks\<close>: the reader delivers the fragments \<open>chunks\<close> and then the end
  of the stream. \<open>returns cb n\<close>: the first \<open>n\<close> invocations of the callback return.
  \<open>afterChunks\<close> is the state of the loop after the given fragments.
\<close>

definition delivers :: "reader \<Rightarrow> jsstring list \<Rightarrow> bool" where
  "delivers rd chunks =
     ((\<forall>i < length chunks. rd i = Chunk (chunks ! i)) \<and> rd (length chunks) = Done)"

definition returns :: "callback option \<Rightarrow> nat \<Rightarrow> bool" where
  "returns cb n = (\<forall>i < n. invoke cb i = None)"

fun afterChunks ::
  "callback option \<Rightarrow> callback option \<Rightarrow> number \<Rightarrow> loop_state \<Rightarrow> jsstring list \<Rightarrow> loop_state" where
  "afterChunks onProgress onStream est st [] = st"
| "afterChunks onProgress onStream est st (c # cs) =
     afterChunks onProgress onStream est
       (reportStream onStream (reportProgress onProgress est (accumulate st (chunkContent c)))) cs"

section \<open>Statements\<close>

text \<open>
  The configuration is present: neither \<open>API_KEY\<close> nor \<open>API_URL\<close> is missing or
  empty. \<open>statusMessage\<close> is the message of the error thrown for a response that is
  not \<open>ok\<close>.
\<close>

definition configured :: "environment \<Rightarrow> bool" where
  "configured env = (\<not> falsy (API_KEY env) \<and> \<not> falsy (API_URL env))"

definition statusMessage :: "nat \<Rightarrow> jsstring" where
  "statusMessage s =
     (if s = 401 then js ''Invalid or expired API Key''
      else if s = 429 then js ''API call limit reached''
      else js ''API request failed with status '' @ natString s)"

definition env500 :: environment where
  "env500 = \<lparr>API_URL = Some (js ''https://api''), API_KEY = Some (js ''key''),
     fetch = FetchResponse \<lparr>status = 500, body = None\<rparr>\<rparr>"


definition formatError :: "jsstring \<Rightarrow> thrown" where
  "formatError diagnostic = ErrorObj (js ''Invalid translation result format: '' @ diagnostic)"

fun isChunk :: "read_result \<Rightarrow> bool" where
  "isChunk (Chunk c) = True"
| "isChunk _ = False"



fun chunkOf :: "read_result \<Rightarrow> jsstring" where
  "chunkOf (Chunk c) = c"
| "chunkOf _ = []"







definition rdBad :: reader where
  "rdBad i =
     (if i = 0 then Chunk (js ''data: {\"choices\":[{\"delta\":{\"content\":\"oops\"}}]}'')
      else Done)"

definition envBad :: environment where
  "envBad = \<lparr>API_URL = Some (js ''https://api''), API_KEY = Some (js ''key''),
     fetch = FetchResponse \<lparr>status = 200, body = Some rdBad\<rparr>\<rparr>"

text \<open>
  A callback that returns every time, the reader that delivers given fragments and
  then the end of the stream, and the environment whose response has that reader.
\<close>

definition alwaysReturns :: callback where
  "alwaysReturns i = None"

definition readerOf :: "jsstring list \<Rightarrow> reader" where
  "readerOf chunks i = (if i < length chunks then Chunk (chunks ! i) else Done)"

definition envOf :: "jsstring list \<Rightarrow> environment" where
  "envOf chunks = \<lparr>API_URL = Some (js ''https://api''), API_KEY = Some (js ''key''),
     fetch = FetchResponse \<lparr>status = 200, body = Some (readerOf chunks)\<rparr>\<rparr>"

text \<open>The lines and fragments of the examples.\<close>

definition lineNotJson :: jsstring where
  "lineNotJson = js ''data: {not json}''"

definition lineOk :: jsstring where
  "lineOk = js ''data: {\"choices\":[{\"delta\":{\"content\":\"ok\"}}]}''"

definition lineDone :: jsstring where
  "lineDone = js ''data: [DONE]''"

definition halfOne :: jsstring where
  "halfOne = js ''data: {\"choices\":[{\"delta\":{\"con''"

definition halfTwo :: jsstring where
  "halfTwo = js ''tent\":\"ok\"}}]}''"

definition rawFenced :: jsstring where
  "rawFenced = fence @ js ''json'' @ [LF] @ js ''{\"a\":\"b\"}'' @ [LF] @ fence"

definition lineFenced :: jsstring where
  "lineFenced =
     js ''data: {\"choices\":[{\"delta\":{\"content\":\"'' @ fence @ js ''json'' @ [0x5C, 0x6E]
     @ js ''{'' @ [0x5C, 0x22] @ js ''a'' @ [0x5C, 0x22] @ js '':'' @ [0x5C, 0x22] @ js ''b''
     @ [0x5C, 0x22] @ js ''}'' @ [0x5C, 0x6E] @ fence @ js ''\"}}]}''"

subsection \<open>Rounding, for the proofs\<close>

text \<open>
  \<open>expo x\<close> is the exponent of the quantum of the binary64 values around \<open>x\<close>, and
  \<open>rounded x\<close> the multiple of that quantum nearest to \<open>x\<close>: \<open>round_pos\<close> without the
  overflow test.
\<close>

definition expo :: "rat \<Rightarrow> int" where
  "expo x = max (floor_log2 x - 52) (- 1074)"

definition rounded :: "rat \<Rightarrow> rat" where
  "rounded x = of_int (round_half_even (x / pow2 (expo x))) * pow2 (expo x)"

text \<open>
  Numbers that are not negative, their order, and the binary64 values among them.
\<close>

fun nonneg :: "number \<Rightarrow> bool" where
  "nonneg (Fin q) = (0 \<le> q)"
| "nonneg PosInf = True"
| "nonneg _ = False"

fun nle :: "number \<Rightarrow> number \<Rightarrow> bool" where
  "nle (Fin a) (Fin b) = (a \<le> b)"
| "nle (Fin a) PosInf = True"
| "nle PosInf PosInf = True"
| "nle _ _ = False"

fun isB64 :: "number \<Rightarrow> bool" where
  "isB64 (Fin q) = (q = 0 \<or> (0 < q \<and> round_pos q = Fin q))"
| "isB64 PosInf = True"
| "isB64 _ = False"

text \<open>A percentage: an integer from 0 to 100.\<close>

fun percentage :: "number \<Rightarrow> bool" where
  "percentage (Fin v) = (0 \<le> v \<and> v \<le> 100 \<and> v \<in> \<int>)"
| "percentage _ = False"

text \<open>
  The invariant of the loop for the progress values: the token count is a binary64
  value that is not negative, every value reported so far is a percentage and at most
  what would be reported now, and the reported values are in order.
\<close>

definition progressInv :: "number \<Rightarrow> loop_state \<Rightarrow> bool" where
  "progressInv est st =
     (isB64 (tokenCount st)
      \<and> (\<forall>p \<in> set (progressCalls st). percentage p \<and> nle p (progressOf (tokenCount st) est))
      \<and> sorted_wrt nle (progressCalls st))"

fun positiveFinite :: "number \<Rightarrow> bool" where
  "positiveFinite (Fin e) = (0 < e)"
| "positiveFinite _ = False"

text \<open>
  Modelled from the spec's words, for comparison with the code:
  \<open>round(min(100, 100 * totalAccumulatedChars/4 / (sourceText.length/4)))\<close> in exact
  arithmetic, a tie rounded upwards.
\<close>

definition specProgress :: "nat \<Rightarrow> nat \<Rightarrow> number" where
  "specProgress sourceLength totalAccumulatedChars =
     Fin (of_int \<lfloor>min 100 (100 * (of_nat totalAccumulatedChars / 4) / (of_nat sourceLength / 4))
                    + (1 / 2 :: rat)\<rfloor>)"

text \<open>
  What the code computes from the two lengths: the quotient is rounded to binary64,
  then its product with 100 is, and the result is rounded to an integer and capped.
  The quotient is the binary64 division, also by a length of zero.
\<close>

definition codeProgress :: "nat \<Rightarrow> nat \<Rightarrow> number" where
  "codeProgress sourceLength totalAccumulatedChars =
     Math_min (Math_round (num_mul (num_div (Fin (of_nat totalAccumulatedChars))
                                      (Fin (of_nat sourceLength)))
                             (Fin 100))) (Fin 100)"

text \<open>The lengths of the content after each of the given fragments, from \<open>acc\<close> on.\<close>

fun totals :: "nat \<Rightarrow> jsstring list \<Rightarrow> nat list" where
  "totals acc [] = []"
| "totals acc (c # cs) =
     (acc + length (chunkContent c)) # totals (acc + length (chunkContent c)) cs"

definition text40 :: jsstring where
  "text40 = js ''{\"title\":\"Hello\",\"body\":\"Good morning!\"}''"

definition line10 :: jsstring where
  "line10 = js ''data: {\"choices\":[{\"delta\":{\"content\":\"0123456789\"}}]}''"

definition line13 :: jsstring where
  "line13 = js ''data: {\"choices\":[{\"delta\":{\"content\":\"0123456789abc\"}}]}''"

definition line23 :: jsstring where
  "line23 = js ''data: {\"choices\":[{\"delta\":{\"content\":\"0123456789abcdefghijklm\"}}]}''"

subsection \<open>The fragments a call receives\<close>

text \<open>
  The stream that the loop reads, when the call gets as far as the loop: the
  configuration is present and \<open>fetch\<close> gives a response that is \<open>ok\<close> and has a body.
\<close>

definition stream :: "environment \<Rightarrow> reader option" where
  "stream env =
     (if falsy (API_KEY env) \<or> falsy (API_URL env) then None
      else (case fetch env of
              FetchFails e \<Rightarrow> None
            | FetchResponse r \<Rightarrow> if ok r then body r else None))"

text \<open>The fragments among the first \<open>n\<close> reads of a stream.\<close>

definition fragments :: "reader \<Rightarrow> nat \<Rightarrow> jsstring list" where
  "fragments rd n = map (\<lambda>i. chunkOf (rd i)) (filter (\<lambda>i. isChunk (rd i)) [0..<n])"

text \<open>
  Read \<open>k\<close> is the last one of the loop: every read before it gives a fragment at which
  both callbacks return, and read \<open>k\<close> ends the stream, rejects, or gives a fragment at
  which a callback throws.
\<close>

definition lastRead :: "reader \<Rightarrow> callback option \<Rightarrow> callback option \<Rightarrow> nat \<Rightarrow> bool" where
  "lastRead rd onProgress onStream k =
     ((\<forall>i < k. isChunk (rd i) \<and> invoke onProgress i = None \<and> invoke onStream i = None)
      \<and> (\<not> isChunk (rd k) \<or> invoke onProgress k \<noteq> None \<or> invoke onStream k \<noteq> None))"

definition rdCut23 :: reader where
  "rdCut23 i = (if i = 0 then Chunk line23 else ReadFails (ErrorObj (js ''network error'')))"

definition envCut23 :: environment where
  "envCut23 = \<lparr>API_URL = Some (js ''https://api''), API_KEY = Some (js ''key''),
     fetch = FetchResponse \<lparr>status = 200, body = Some rdCut23\<rparr>\<rparr>"

text \<open>The fenced content of \<open>lineFenced\<close> followed by a space.\<close>

definition lineFencedSpace :: jsstring where
  "lineFencedSpace =
     js ''data: {\"choices\":[{\"delta\":{\"content\":\"'' @ fence @ js ''json'' @ [0x5C, 0x6E]
     @ js ''{'' @ [0x5C, 0x22] @ js ''a'' @ [0x5C, 0x22] @ js '':'' @ [0x5C, 0x22] @ js ''b''
     @ [0x5C, 0x22] @ js ''}'' @ [0x5C, 0x6E] @ fence @ js '' \"}}]}''"

subsection \<open>Values written and read back\<close>

text \<open>
  The notions used to state that the text written by \<open>JSON_stringify2\<close> is read back
  by \<open>JSON_parse\<close>. What may follow a number in that text: the end of the text or a
  character that is not part of a number.
\<close>

definition endsNumber :: "jsstring \<Rightarrow> bool" where
  "endsNumber rest =
     (rest = [] \<or> (\<not> isDigit (hd rest) \<and> hd rest \<noteq> 0x2E \<and> hd rest \<noteq> 0x65 \<and> hd rest \<noteq> 0x45))"

text \<open>The value of a list of decimal digits, the first one the most significant.\<close>

fun val :: "nat list \<Rightarrow> nat" where
  "val [] = 0"
| "val (d # ds) = d * 10 ^ length ds + val ds"

text \<open>The number for the decimal value \<open>v\<close> read with or without a minus sign.\<close>

definition mkNumber :: "bool \<Rightarrow> rat \<Rightarrow> number" where
  "mkNumber neg v = (if v = 0 then zeroOf neg else if neg then negate (b64 v) else b64 v)"

text \<open>The positive rationals that are binary64 values.\<close>

definition posB64 :: "rat \<Rightarrow> bool" where
  "posB64 q = (0 < q \<and> round_pos q = Fin q)"

text \<open>The finite numbers that are binary64 values, \<open>-0\<close> apart.\<close>

fun finiteB64 :: "number \<Rightarrow> bool" where
  "finiteB64 (Fin x) = (x = 0 \<or> posB64 \<bar>x\<bar>)"
| "finiteB64 _ = False"

text \<open>\<open>NaN\<close> and the two infinities.\<close>

fun nonFinite :: "number \<Rightarrow> bool" where
  "nonFinite NaN = True"
| "nonFinite PosInf = True"
| "nonFinite NegInf = True"
| "nonFinite _ = False"

text \<open>
  What \<open>JSON.stringify\<close> keeps of a value: a number that is not finite becomes \<open>null\<close>,
  and \<open>-0\<close> becomes \<open>0\<close>.
\<close>

fun normalize :: "json \<Rightarrow> json"
  and normalizeElements :: "json list \<Rightarrow> json list"
  and normalizeMembers :: "(jsstring \<times> json) list \<Rightarrow> (jsstring \<times> json) list" where
  "normalize JNull = JNull"
| "normalize (JBool b) = JBool b"
| "normalize (JNum n) =
     (if nonFinite n then JNull else if n = NegZero then JNum (Fin 0) else JNum n)"
| "normalize (JStr s) = JStr s"
| "normalize (JArr es) = JArr (normalizeElements es)"
| "normalize (JObj ms) = JObj (normalizeMembers ms)"
| "normalizeElements [] = []"
| "normalizeElements (v # vs) = normalize v # normalizeElements vs"
| "normalizeMembers [] = []"
| "normalizeMembers ((k, v) # ms) = (k, normalize v) # normalizeMembers ms"

text \<open>The tokens of the text \<open>serialize\<close> writes for a value.\<close>

fun tokensOf :: "json \<Rightarrow> token list"
  and elementTokens :: "json list \<Rightarrow> token list"
  and memberTokens :: "(jsstring \<times> json) list \<Rightarrow> token list" where
  "tokensOf JNull = [TNull]"
| "tokensOf (JBool b) = (if b then [TTrue] else [TFalse])"
| "tokensOf (JNum n) =
     (if nonFinite n then [TNull] else if n = NegZero then [TNumber (Fin 0)] else [TNumber n])"
| "tokensOf (JStr s) = [TString s]"
| "tokensOf (JArr es) = TLBracket # elementTokens es @ [TRBracket]"
| "tokensOf (JObj ms) = TLBrace # memberTokens ms @ [TRBrace]"
| "elementTokens [] = []"
| "elementTokens (v # vs) =
     (if vs = [] then tokensOf v else tokensOf v @ TComma # elementTokens vs)"
| "memberTokens [] = []"
| "memberTokens ((k, v) # ms) =
     (if ms = [] then TString k # TColon # tokensOf v
      else TString k # TColon # tokensOf v @ TComma # memberTokens ms)"

text \<open>The numbers of a value are binary64 values.\<close>

fun isNumber :: "number \<Rightarrow> bool" where
  "isNumber (Fin x) = (x = 0 \<or> posB64 \<bar>x\<bar>)"
| "isNumber _ = True"

text \<open>
  The order of the keys of an object (OrdinaryOwnPropertyKeys): the array indices in
  ascending order, then the other keys; no key twice.
\<close>

definition keyBefore :: "jsstring \<Rightarrow> jsstring \<Rightarrow> bool" where
  "keyBefore k k' = (isArrayIndex k' \<longrightarrow> isArrayIndex k \<and> decVal 0 k < decVal 0 k')"

definition keysOK :: "jsstring list \<Rightarrow> bool" where
  "keysOK ks = (distinct ks \<and> sorted_wrt keyBefore ks)"

text \<open>
  A well-formed value: its numbers are binary64 values and the keys of its objects are
  in property order.
\<close>

fun wfValue :: "json \<Rightarrow> bool"
  and wfElements :: "json list \<Rightarrow> bool"
  and wfMembers :: "(jsstring \<times> json) list \<Rightarrow> bool" where
  "wfValue (JNum n) = isNumber n"
| "wfValue (JArr es) = wfElements es"
| "wfValue (JObj ms) = (keysOK (map fst ms) \<and> wfMembers ms)"
| "wfValue _ = True"
| "wfElements [] = True"
| "wfElements (v # vs) = (wfValue v \<and> wfElements vs)"
| "wfMembers [] = True"
| "wfMembers ((k, v) # ms) = (wfValue v \<and> wfMembers ms)"

text \<open>Tokens put in front of a tokenizer result.\<close>

fun consToks :: "token list \<Rightarrow> token list option \<Rightarrow> token list option" where
  "consToks ts None = None"
| "consToks ts (Some us) = Some (ts @ us)"

text \<open>
  What follows a value in the text of \<open>serialize\<close>: the end, a comma or a line feed.
  An indent is made of spaces.
\<close>

definition endsValue :: "jsstring \<Rightarrow> bool" where
  "endsValue rest = (rest = [] \<or> hd rest = 0x2C \<or> hd rest = 0x0A)"

definition isIndent :: "jsstring \<Rightarrow> bool" where
  "isIndent ind = (\<forall>c \<in> set ind. c = 0x20)"

text \<open>The parser continues from a state, if there is one.\<close>

fun resume :: "(pmode \<times> frame list) option \<Rightarrow> token list \<Rightarrow> json option" where
  "resume None ts = None"
| "resume (Some (m, st)) ts = parseTokens m st ts"

text \<open>Well-formed parser states and tokens.\<close>

fun wfFrame :: "frame \<Rightarrow> bool" where
  "wfFrame (FArr es) = wfElements es"
| "wfFrame (FObj ms) = (keysOK (map fst ms) \<and> wfMembers ms)"
| "wfFrame (FMember ms k) = (keysOK (map fst ms) \<and> wfMembers ms)"

fun wfMode :: "pmode \<Rightarrow> bool" where
  "wfMode (PDone v) = wfValue v"
| "wfMode _ = True"

fun wfToken :: "token \<Rightarrow> bool" where
  "wfToken (TNumber n) = isNumber n"
| "wfToken _ = True"

definition wfState :: "pmode \<times> frame list \<Rightarrow> bool" where
  "wfState s = (wfMode (fst s) \<and> list_all wfFrame (snd s))"

text \<open>The numbers that occur in a value.\<close>

fun numbersOf :: "json \<Rightarrow> number list"
  and elementNumbers :: "json list \<Rightarrow> number list"
  and memberNumbers :: "(jsstring \<times> json) list \<Rightarrow> number list" where
  "numbersOf (JNum n) = [n]"
| "numbersOf (JArr es) = elementNumbers es"
| "numbersOf (JObj ms) = memberNumbers ms"
| "numbersOf _ = []"
| "elementNumbers [] = []"
| "elementNumbers (v # vs) = numbersOf v @ elementNumbers vs"
| "memberNumbers [] = []"
| "memberNumbers ((k, v) # ms) = numbersOf v @ memberNumbers ms"

text \<open>Two more lines for the examples, with the contents \<open>1e400\<close> and \<open>[1.5,true]\<close>.\<close>

definition lineHuge :: jsstring where
  "lineHuge = js ''data: {\"choices\":[{\"delta\":{\"content\":\"1e400\"}}]}''"

definition lineHalves :: jsstring where
  "lineHalves = js ''data: {\"choices\":[{\"delta\":{\"content\":\"[1.5,true]\"}}]}''"

section \<open>Evaluation rules\<close>

text \<open>Rules that compute the functions above on literals.\<close>

lemma js_Nil [simp]: "js [] = []"
  by (simp add: js_def)

lemma js_Cons [simp]: "js (c # cs) = of_nat (of_char c) # js cs"
  by (simp add: js_def)

lemma floor_rat_numeral_div [simp]:
  "\<lfloor>numeral a / numeral b :: rat\<rfloor> = numeral a div numeral b"
  by (metis floor_divide_of_int_eq of_int_numeral)

lemma ceiling_rat_numeral_div [simp]:
  "\<lceil>numeral a / numeral b :: rat\<rceil> = - ((- numeral a) div numeral b)"
  by (metis ceiling_def floor_divide_of_int_eq of_int_numeral of_int_minus minus_divide_left)

lemma bits_numeral [simp]: "bits (numeral k) = Suc (bits (numeral k div 2))"
  by (subst bits.simps) simp

lemma bits_0 [simp]: "bits 0 = 0"
  by (simp add: bits.simps)

lemma bits_Suc_0 [simp]: "bits (Suc 0) = 1"
  by (simp add: bits.simps)

lemma digits_numeral [simp]:
  "digits (numeral k) =
     (if numeral k < (10::nat) then [numeral k] else digits (numeral k div 10) @ [numeral k mod 10])"
  by (subst digits.simps) simp

lemma digits_0 [simp]: "digits 0 = [0]"
  by (simp add: digits.simps)

lemma digits_Suc_0 [simp]: "digits (Suc 0) = [1]"
  by (simp add: digits.simps)

lemma replicate_numeral [simp]: "replicate (numeral k) x = x # replicate (pred_numeral k) x"
  by (simp add: numeral_eq_Suc)

lemmas shortest_eval = shortest.simps [of _ _ "Suc k"] for k

lemmas number_eval = round_pos_def floor_log2_def round_half_even_def pow2_def pow10_def b64_def
  num_div_def num_mul_def num_add_def Math_min_def zeroOf_def infOf_def lengthNum_def
  progressOf_def

lemmas toString_eval = posToString_def shortest_eval candidates_def roundsTo_def dec_exp_def
  formatDigits_def signedExp_def natString_def digitChar_def stripZeros_def

lemmas lex_eval = isJsonSpace_def isDigit_def startsWith_def lexNumber_def lexUnsigned_def
  lexInt_def lexFrac_def lexExp_def lexExpDigits_def numberValue_def hexVal_def
  simpleEscape_def digitVal_def

lemmas parse_eval = JSON_parse_def parseText_def objSet_def objInsert_def isArrayIndex_def
  syntaxErrorMessage_def

lemmas line_eval = lineContent_def deltaContent_def optionalNamed_def orEmpty_def
  chunkContent_def LF_def

lemmas clean_eval = cleanJsonString_def removeFenceClose_def trim_def fence_def isTrimSpace_def

lemmas stringify_eval = JSON_stringify2_def QuoteJSONString_def gap_def isHighSurrogate_def
  isLowSurrogate_def unicodeEscape_def hexDigit_def

lemmas translate_eval = translate_def estimated_def ok_def validate_def catchHandler_def settle_def
  initialState_def processChunk_def invoke_def record_call_def accumulate_def
  reportProgress_def reportStream_def readLoop.simps delivers_def returns_def


section \<open>The loop\<close>

lemma readLoop_Done:
  "rd i = Done \<Longrightarrow> readLoop rd onP onS est i st = Some (None, Suc i, st)"
  by (subst readLoop.simps) simp

lemma readLoop_ReadFails:
  "rd i = ReadFails e \<Longrightarrow> readLoop rd onP onS est i st = Some (Some e, Suc i, st)"
  by (subst readLoop.simps) simp

lemma readLoop_Chunk:
  "rd i = Chunk c \<Longrightarrow> invoke onP i = None \<Longrightarrow> invoke onS i = None \<Longrightarrow>
   readLoop rd onP onS est i st =
     readLoop rd onP onS est (Suc i)
       (reportStream onS (reportProgress onP est (accumulate st (chunkContent c))))"
  by (subst readLoop.simps) (simp add: processChunk_def)

lemma readLoop_chunks:
  assumes "\<forall>i < length cs. rd (k + i) = Chunk (cs ! i) \<and> invoke onP (k + i) = None
             \<and> invoke onS (k + i) = None"
  shows "readLoop rd onP onS est k st =
           readLoop rd onP onS est (k + length cs) (afterChunks onP onS est st cs)"
  using assms
proof (induction cs arbitrary: k st)
  case Nil
  then show ?case by simp
next
  case (Cons c cs)
  from Cons.prems have h0: "rd k = Chunk c" "invoke onP k = None" "invoke onS k = None"
    by force+
  have rest: "\<forall>i < length cs. rd (Suc k + i) = Chunk (cs ! i) \<and> invoke onP (Suc k + i) = None
             \<and> invoke onS (Suc k + i) = None"
  proof (intro allI impI)
    fix i assume "i < length cs"
    then have "Suc i < length (c # cs)" by simp
    from Cons.prems [rule_format, OF this] show "rd (Suc k + i) = Chunk (cs ! i) \<and> invoke onP (Suc k + i) = None
             \<and> invoke onS (Suc k + i) = None" by simp
  qed
  show ?case
    using Cons.IH [OF rest] readLoop_Chunk [of rd k c onP onS est st] h0 by simp
qed

lemma readLoop_completes:
  assumes "delivers rd cs" and "returns onP (length cs)" and "returns onS (length cs)"
  shows "readLoop rd onP onS est 0 st =
           Some (None, Suc (length cs), afterChunks onP onS est st cs)"
proof -
  have "readLoop rd onP onS est 0 st =
           readLoop rd onP onS est (0 + length cs) (afterChunks onP onS est st cs)"
    using assms by (intro readLoop_chunks) (simp add: delivers_def returns_def)
  also have "\<dots> = Some (None, Suc (length cs), afterChunks onP onS est st cs)"
    using assms(1) by (simp add: readLoop_Done delivers_def)
  finally show ?thesis .
qed

lemma fullContent_afterChunks:
  "fullContent (afterChunks onP onS est st cs) = fullContent st @ concat (map chunkContent cs)"
  by (induction cs arbitrary: st)
    (simp_all add: reportStream_def reportProgress_def accumulate_def)

section \<open>Decimal numerals\<close>

lemma unat_cu: "n < 65536 \<Longrightarrow> unat (word_of_nat n :: cu) = n"
  by (simp add: unat_of_nat)

lemma unat_digitChar: "d < 10 \<Longrightarrow> unat (digitChar d) = 48 + d"
  unfolding digitChar_def by (rule unat_cu) simp

lemma digitVal_digitChar: "d < 10 \<Longrightarrow> digitVal (digitChar d) = d"
  by (simp add: digitVal_def unat_digitChar)

lemma decVal_snoc: "decVal a (xs @ [x]) = 10 * decVal a xs + digitVal x"
  by (induction xs arbitrary: a) simp_all

lemma decVal_digits:
  "decVal acc (map digitChar (digits n)) = acc * 10 ^ length (digits n) + n"
proof (induction n arbitrary: acc rule: digits.induct)
  case (1 n)
  show ?case
  proof (cases "n < 10")
    case True
    then show ?thesis
      by (subst (1 2) digits.simps) (simp add: digitVal_digitChar)
  next
    case False
    have d: "digits n = digits (n div 10) @ [n mod 10]"
      using False by (subst digits.simps) simp
    show ?thesis
      using "1.IH" [OF False, of acc]
      by (simp add: d decVal_snoc digitVal_digitChar algebra_simps)
  qed
qed

lemma decVal_natString: "decVal 0 (natString n) = n"
  by (simp add: natString_def decVal_digits)

section \<open>HTTP status errors\<close>

text \<open>
  C4: when the configuration is present, the response has a status outside 200..299 and
  the signal is not aborted, the call rejects: for 401 with the authentication error,
  for 429 with the rate-limit error, for any other status with the request-failure
  error, whose message ends with the decimal status code.
\<close>

theorem http_status_rejects:
  assumes "configured env" and "fetch env = FetchResponse r" and "\<not> ok r"
    and "\<not> aborted sig 0"
  shows "translate env text targetLang sig onProgress onStream =
           Some \<lparr>outcome = Rejects (ErrorObj (statusMessage (status r))),
                 progressValues = [], streamValues = []\<rparr>
         \<and> (status r \<noteq> 401 \<longrightarrow> status r \<noteq> 429 \<longrightarrow>
              statusMessage (status r) = js ''API request failed with status '' @ natString (status r)
              \<and> decVal 0 (natString (status r)) = status r)"
  using assms
  by (simp add: configured_def translate_def catchHandler_def settle_def initialState_def
      statusMessage_def decVal_natString)

theorem http_status_rejects_witness:
  "configured env500 \<and> fetch env500 = FetchResponse \<lparr>status = 500, body = None\<rparr>
   \<and> \<not> ok \<lparr>status = 500, body = None\<rparr> \<and> \<not> aborted None 0
   \<and> translate env500 (js ''{}'') (js ''French'') None None None =
       Some \<lparr>outcome = Rejects (ErrorObj (js ''API request failed with status 500'')),
             progressValues = [], streamValues = []\<rparr>"
  using http_status_rejects [of env500 "\<lparr>status = 500, body = None\<rparr>" None "js ''{}''" "js ''French''" None None]
  by (simp add: configured_def env500_def ok_def statusMessage_def natString_def digitChar_def)

section \<open>Control flow\<close>

lemma translate_streaming:
  assumes "configured env" and "fetch env = FetchResponse r" and "ok r" and "body r = Some rd"
  shows "translate env text targetLang sig onProgress onStream =
           map_option (afterLoop sig)
             (readLoop rd onProgress onStream (estimated text) 0 initialState)"
  using assms by (simp add: configured_def translate_def)

lemma translate_completes:
  assumes "configured env" and "fetch env = FetchResponse r" and "ok r" and "body r = Some rd"
    and "delivers rd cs" and "returns onProgress (length cs)" and "returns onStream (length cs)"
  shows "translate env text targetLang sig onProgress onStream =
           Some (settle (validate sig (Suc (length cs)) (concat (map chunkContent cs)))
                   (afterChunks onProgress onStream (estimated text) initialState cs))"
  using assms
  by (simp add: translate_streaming readLoop_completes fullContent_afterChunks initialState_def)


lemma chunk_tr: "chunkContent (js ''data: {\"choices\":[{\"delta\":{\"content\":\"[tr\"}}]}'') = js ''[tr''"
  by (simp add: line_eval lex_eval parse_eval)

lemma chunk_oops: "chunkContent (js ''data: {\"choices\":[{\"delta\":{\"content\":\"oops\"}}]}'') = js ''oops''"
  by (simp add: line_eval lex_eval parse_eval)

lemma parse_oops: "JSON_parse (cleanJsonString (js ''oops'')) = Inl (syntaxErrorMessage (js ''oops''))"
  by (simp add: clean_eval lex_eval JSON_parse_def parseText_def)




text \<open>
  C3: when the stream completes, the cleaned content is not JSON and the signal is not
  aborted, the call rejects with the format error, whose message ends with the
  diagnostic of \<open>JSON.parse\<close>.
\<close>

theorem invalid_result_rejects:
  assumes "configured env" and "fetch env = FetchResponse r" and "ok r" and "body r = Some rd"
    and "delivers rd cs" and "returns onProgress (length cs)" and "returns onStream (length cs)"
    and "JSON_parse (cleanJsonString (concat (map chunkContent cs))) = Inl diagnostic"
    and "\<not> aborted sig (Suc (length cs))"
  shows "\<exists>res. translate env text targetLang sig onProgress onStream = Some res
           \<and> outcome res = Rejects (formatError diagnostic)"
  using assms(8,9)
  by (simp add: translate_completes [OF assms(1-7)] validate_def catchHandler_def settle_def
      formatError_def)

theorem invalid_result_rejects_witness:
  "configured envBad \<and> delivers rdBad [js ''data: {\"choices\":[{\"delta\":{\"content\":\"oops\"}}]}'']
   \<and> \<not> aborted None 2
   \<and> (\<exists>res. translate envBad (js ''[false]'') (js ''French'') None None None = Some res
          \<and> outcome res = Rejects (formatError (syntaxErrorMessage (js ''oops''))))"
proof -
  have c: "configured envBad"
    by (simp add: configured_def envBad_def)
  have f: "fetch envBad = FetchResponse \<lparr>status = 200, body = Some rdBad\<rparr>"
    by (simp add: envBad_def)
  have k: "ok \<lparr>status = 200, body = Some rdBad\<rparr>"
    by (simp add: ok_def)
  have b: "body \<lparr>status = 200, body = Some rdBad\<rparr> = Some rdBad"
    by simp
  have d: "delivers rdBad [js ''data: {\"choices\":[{\"delta\":{\"content\":\"oops\"}}]}'']"
    by (simp add: delivers_def rdBad_def)
  have rt: "returns None (length [js ''data: {\"choices\":[{\"delta\":{\"content\":\"oops\"}}]}''])"
    by (simp add: returns_def invoke_def)
  have p: "JSON_parse (cleanJsonString (concat (map chunkContent
             [js ''data: {\"choices\":[{\"delta\":{\"content\":\"oops\"}}]}'']))) =
           Inl (syntaxErrorMessage (js ''oops''))"
    using chunk_oops parse_oops by simp
  have a: "\<not> aborted None (Suc (length [js ''data: {\"choices\":[{\"delta\":{\"content\":\"oops\"}}]}'']))"
    by simp
  from invalid_result_rejects [OF c f k b d rt rt p a] c d show ?thesis
    by simp
qed





section \<open>Lines of a fragment\<close>

lemma linesContent_append: "linesContent (xs @ ys) = linesContent xs @ linesContent ys"
  by (induction xs) simp_all

lemma delivers_readerOf: "delivers (readerOf cs) cs"
  by (simp add: delivers_def readerOf_def)

lemma returns_alwaysReturns: "returns (Some alwaysReturns) n"
  by (simp add: returns_def invoke_def alwaysReturns_def)

lemma returns_None: "returns None n"
  by (simp add: returns_def invoke_def)

lemma configured_envOf: "configured (envOf cs)"
  by (simp add: configured_def envOf_def)

lemma translate_envOf:
  "translate (envOf cs) text targetLang sig None (Some alwaysReturns) =
     Some (settle (validate sig (Suc (length cs)) (concat (map chunkContent cs)))
             (afterChunks None (Some alwaysReturns) (estimated text) initialState cs))"
proof -
  let ?r = "\<lparr>status = 200, body = Some (readerOf cs)\<rparr>"
  have f: "fetch (envOf cs) = FetchResponse ?r"
    by (simp add: envOf_def)
  have k: "ok ?r"
    by (simp add: ok_def)
  have b: "body ?r = Some (readerOf cs)"
    by simp
  show ?thesis
    by (rule translate_completes [OF configured_envOf f k b delivers_readerOf returns_None
          returns_alwaysReturns])
qed

lemma content_lineNotJson: "lineContent lineNotJson = []"
  by (simp add: lineNotJson_def line_eval lex_eval parse_eval)

lemma content_lineOk: "lineContent lineOk = js ''ok''"
  by (simp add: lineOk_def line_eval lex_eval parse_eval)

lemma content_lineDone: "lineContent lineDone = []"
  by (simp add: lineDone_def line_eval)

lemma split_three:
  "split LF (lineNotJson @ [LF] @ lineOk @ [LF] @ lineDone) = [lineNotJson, lineOk, lineDone]"
  by (simp add: lineNotJson_def lineOk_def lineDone_def LF_def)

lemma chunk_three: "chunkContent (lineNotJson @ [LF] @ lineOk @ [LF] @ lineDone) = js ''ok''"
  unfolding chunkContent_def split_three
  by (simp add: content_lineNotJson content_lineOk content_lineDone)

lemma parse_ok_fails: "JSON_parse (cleanJsonString (js ''ok'')) = Inl (syntaxErrorMessage (js ''ok''))"
  by (simp add: clean_eval lex_eval JSON_parse_def parseText_def)

text \<open>
  C7: a line that starts with \<open>data: \<close> and whose remainder \<open>JSON.parse\<close> rejects adds
  nothing and the lines after it are still read; a \<open>data: [DONE]\<close> line adds nothing;
  the lines \<open>data: {not json}\<close>, \<open>data: {"choices":[{"delta":{"content":"ok"}}]}\<close>,
  \<open>data: [DONE]\<close> give the content \<open>ok\<close>, which is what \<open>onStream\<close> receives before the
  final clean-up.
\<close>

theorem malformed_lines_skipped:
  "(startsWith line (js ''data: '') \<longrightarrow> JSON_parse (drop 6 line) = Inl d \<longrightarrow>
      linesContent (before @ line # after) = linesContent before @ linesContent after)
   \<and> linesContent (before @ lineDone # after) = linesContent before @ linesContent after
   \<and> chunkContent (lineNotJson @ [LF] @ lineOk @ [LF] @ lineDone) = js ''ok''
   \<and> translate (envOf [lineNotJson @ [LF] @ lineOk @ [LF] @ lineDone]) text targetLang None None
        (Some alwaysReturns)
      = Some \<lparr>outcome = Rejects (formatError (syntaxErrorMessage (js ''ok''))),
              progressValues = [], streamValues = [js ''ok'']\<rparr>"
proof (intro conjI impI)
  assume "startsWith line (js ''data: '')" "JSON_parse (drop 6 line) = Inl d"
  then have "lineContent line = []"
    by (simp add: lineContent_def)
  then show "linesContent (before @ line # after) = linesContent before @ linesContent after"
    by (simp add: linesContent_append)
next
  show "linesContent (before @ lineDone # after) = linesContent before @ linesContent after"
    by (simp add: linesContent_append content_lineDone)
next
  show "chunkContent (lineNotJson @ [LF] @ lineOk @ [LF] @ lineDone) = js ''ok''"
    by (fact chunk_three)
next
  show "translate (envOf [lineNotJson @ [LF] @ lineOk @ [LF] @ lineDone]) text targetLang None None
        (Some alwaysReturns)
      = Some \<lparr>outcome = Rejects (formatError (syntaxErrorMessage (js ''ok''))),
              progressValues = [], streamValues = [js ''ok'']\<rparr>"
    unfolding translate_envOf
    using chunk_three parse_ok_fails
    by (simp add: validate_def catchHandler_def settle_def formatError_def initialState_def
        reportStream_def reportProgress_def accumulate_def record_call_def)
qed

theorem malformed_lines_skipped_witness:
  "startsWith lineNotJson (js ''data: '')
   \<and> JSON_parse (drop 6 lineNotJson) = Inl (syntaxErrorMessage (js ''{not json}''))
   \<and> linesContent ([] @ lineNotJson # [lineOk, lineDone]) = js ''ok''"
proof -
  have s: "startsWith lineNotJson (js ''data: '')"
    by (simp add: lineNotJson_def startsWith_def)
  have p: "JSON_parse (drop 6 lineNotJson) = Inl (syntaxErrorMessage (js ''{not json}''))"
    by (simp add: lineNotJson_def lex_eval JSON_parse_def parseText_def)
  from malformed_lines_skipped [of lineNotJson "syntaxErrorMessage (js ''{not json}'')" "[]"
      "[lineOk, lineDone]"] s p
  show ?thesis
    by (simp add: content_lineOk content_lineDone)
qed


lemma drop6_halfOne: "drop 6 halfOne = js ''{\"choices\":[{\"delta\":{\"con''"
  by (simp add: halfOne_def)

lemma parse_halfOne:
  "JSON_parse (drop 6 halfOne) = Inl (syntaxErrorMessage (drop 6 halfOne))"
  unfolding drop6_halfOne by (simp add: lex_eval JSON_parse_def parseText_def)

lemma chunk_halfOne: "chunkContent halfOne = []"
  using parse_halfOne
  by (simp add: chunkContent_def lineContent_def LF_def halfOne_def startsWith_def)

lemma chunk_halfTwo: "chunkContent halfTwo = []"
  by (simp add: chunkContent_def lineContent_def LF_def halfTwo_def startsWith_def)

lemma halves: "halfOne @ halfTwo = lineOk"
  by (simp add: halfOne_def halfTwo_def lineOk_def)

lemma chunk_lineOk: "chunkContent lineOk = js ''ok''"
  using content_lineOk by (simp add: chunkContent_def lineOk_def LF_def)

lemma parse_empty_fails: "JSON_parse (cleanJsonString []) = Inl (syntaxErrorMessage [])"
  by (simp add: clean_eval JSON_parse_def parseText_def)

text \<open>
  C10: fragments are split into lines one by one, with nothing carried over. When the
  event line \<open>data: {"choices":[{"delta":{"content":"ok"}}]}\<close> arrives in two fragments,
  the first half is a \<open>data: \<close> line that \<open>JSON.parse\<close> rejects and the second half
  has no \<open>data: \<close> prefix: both add nothing and the content stays empty, while the
  same line in one fragment gives \<open>ok\<close>.
\<close>

theorem split_event_is_lost:
  "startsWith halfOne (js ''data: '')
   \<and> JSON_parse (drop 6 halfOne) = Inl (syntaxErrorMessage (drop 6 halfOne))
   \<and> \<not> startsWith halfTwo (js ''data: '')
   \<and> chunkContent halfOne = [] \<and> chunkContent halfTwo = []
   \<and> chunkContent (halfOne @ halfTwo) = js ''ok''
   \<and> translate (envOf [halfOne, halfTwo]) text targetLang None None (Some alwaysReturns)
      = Some \<lparr>outcome = Rejects (formatError (syntaxErrorMessage [])),
              progressValues = [], streamValues = [[], []]\<rparr>
   \<and> translate (envOf [halfOne @ halfTwo]) text targetLang None None (Some alwaysReturns)
      = Some \<lparr>outcome = Rejects (formatError (syntaxErrorMessage (js ''ok''))),
              progressValues = [], streamValues = [js ''ok'']\<rparr>"
proof (intro conjI)
  show "startsWith halfOne (js ''data: '')"
    by (simp add: halfOne_def startsWith_def)
  show "JSON_parse (drop 6 halfOne) = Inl (syntaxErrorMessage (drop 6 halfOne))"
    by (fact parse_halfOne)
  show "\<not> startsWith halfTwo (js ''data: '')"
    by (simp add: halfTwo_def startsWith_def)
  show "chunkContent halfOne = []"
    by (fact chunk_halfOne)
  show "chunkContent halfTwo = []"
    by (fact chunk_halfTwo)
  show "chunkContent (halfOne @ halfTwo) = js ''ok''"
    unfolding halves by (fact chunk_lineOk)
  show "translate (envOf [halfOne, halfTwo]) text targetLang None None (Some alwaysReturns)
      = Some \<lparr>outcome = Rejects (formatError (syntaxErrorMessage [])),
              progressValues = [], streamValues = [[], []]\<rparr>"
    unfolding translate_envOf
    using chunk_halfOne chunk_halfTwo parse_empty_fails
    by (simp add: validate_def catchHandler_def settle_def formatError_def initialState_def
        reportStream_def reportProgress_def accumulate_def record_call_def)
  show "translate (envOf [halfOne @ halfTwo]) text targetLang None None (Some alwaysReturns)
      = Some \<lparr>outcome = Rejects (formatError (syntaxErrorMessage (js ''ok''))),
              progressValues = [], streamValues = [js ''ok'']\<rparr>"
    unfolding translate_envOf halves
    using chunk_lineOk parse_ok_fails
    by (simp add: validate_def catchHandler_def settle_def formatError_def initialState_def
        reportStream_def reportProgress_def accumulate_def record_call_def)
qed


section \<open>Cleaning the content\<close>

lemma removeFenceOpen_plain:
  "0x60 \<notin> set inner \<Longrightarrow> removeFenceOpen (inner @ rest) = inner @ removeFenceOpen rest"
  by (induction inner) (auto simp: startsWith_def fence_def)

lemma removeFenceOpen_fence: "removeFenceOpen ([LF] @ fence) = [LF] @ fence"
  by (simp add: startsWith_def fence_def LF_def)

lemma removeFenceOpen_json:
  "removeFenceOpen (fence @ js ''json'' @ [LF] @ rest) = removeFenceOpen rest"
  by (simp add: startsWith_def fence_def LF_def)

lemma removeFenceOpen_bare:
  "removeFenceOpen (fence @ [LF] @ rest) = removeFenceOpen rest"
  by (simp add: startsWith_def fence_def LF_def)

lemma removeFenceClose_fence: "removeFenceClose (s @ fence) = s"
  by (simp add: removeFenceClose_def fence_def)

lemma trim_snoc_space: "isTrimSpace c \<Longrightarrow> trim (s @ [c]) = trim s"
proof (cases "\<forall>x \<in> set s. isTrimSpace x")
  case True
  assume "isTrimSpace c"
  with True show ?thesis
    by (simp add: trim_def dropWhile_append3 dropWhile_eq_Nil_conv[THEN iffD2])
next
  case False
  assume c: "isTrimSpace c"
  from False have "dropWhile isTrimSpace (s @ [c]) = dropWhile isTrimSpace s @ [c]"
    by (auto simp: dropWhile_append1)
  with c show ?thesis
    by (simp add: trim_def)
qed

lemma clean_fenced:
  assumes "0x60 \<notin> set inner"
  shows "cleanJsonString (fence @ js ''json'' @ [LF] @ inner @ [LF] @ fence) = trim inner"
    and "cleanJsonString (fence @ [LF] @ inner @ [LF] @ fence) = trim inner"
proof -
  have lf: "isTrimSpace LF"
    by (simp add: isTrimSpace_def LF_def)
  have inner: "removeFenceClose (removeFenceOpen (inner @ [LF] @ fence)) = inner @ [LF]"
    using removeFenceClose_fence [of "inner @ [LF]"]
    by (simp only: removeFenceOpen_plain [OF assms] removeFenceOpen_fence append_assoc)
  show "cleanJsonString (fence @ js ''json'' @ [LF] @ inner @ [LF] @ fence) = trim inner"
    by (simp only: cleanJsonString_def removeFenceOpen_json inner trim_snoc_space [OF lf])
  show "cleanJsonString (fence @ [LF] @ inner @ [LF] @ fence) = trim inner"
    by (simp only: cleanJsonString_def removeFenceOpen_bare inner trim_snoc_space [OF lf])
qed

lemma clean_rawFenced: "cleanJsonString rawFenced = js ''{\"a\":\"b\"}''"
  by (simp add: rawFenced_def clean_eval startsWith_def LF_def)

lemma parse_a_b: "JSON_parse (js ''{\"a\":\"b\"}'') = Inr (JObj [(js ''a'', JStr (js ''b''))])"
  by (simp add: lex_eval parse_eval)

lemma parse_rawFenced:
  "JSON_parse (cleanJsonString rawFenced) = Inr (JObj [(js ''a'', JStr (js ''b''))])"
  by (simp only: clean_rawFenced parse_a_b)

lemma chunk_lineFenced: "chunkContent lineFenced = rawFenced"
  by (simp add: lineFenced_def rawFenced_def fence_def line_eval lex_eval parse_eval)

lemma stringify_a_b:
  "JSON_stringify2 (JObj [(js ''a'', JStr (js ''b''))]) =
     js ''{'' @ [LF] @ js ''  \"a\": \"b\"'' @ [LF] @ js ''}''"
  by (simp add: stringify_eval LF_def)

text \<open>
  A content of the form \<^verbatim>\<open>```json\<close>, line feed, \<open>inner\<close>, line feed, \<^verbatim>\<open>```\<close> (or
  with the opening fence \<^verbatim>\<open>```\<close> alone), \<open>inner\<close> without backquote, is cleaned to
  \<open>inner\<close> without its surrounding white space.
\<close>

lemma fenced_content_cleaned:
  assumes "0x60 \<notin> set inner"
  shows "cleanJsonString (fence @ js ''json'' @ [LF] @ inner @ [LF] @ fence) = trim inner"
    and "cleanJsonString (fence @ [LF] @ inner @ [LF] @ fence) = trim inner"
  using assms by (rule clean_fenced)+

lemma chunk_lineFencedSpace: "chunkContent lineFencedSpace = rawFenced @ js '' ''"
  by (simp add: lineFencedSpace_def rawFenced_def fence_def line_eval lex_eval parse_eval)

lemma clean_rawFenced_space:
  "cleanJsonString (rawFenced @ js '' '') = js ''{\"a\":\"b\"}'' @ [LF] @ fence"
  by (simp add: rawFenced_def clean_eval startsWith_def LF_def)

lemma parse_fence_kept:
  "JSON_parse (js ''{\"a\":\"b\"}'' @ [LF] @ fence) =
     Inl (syntaxErrorMessage (js ''{\"a\":\"b\"}'' @ [LF] @ fence))"
  by (simp add: fence_def LF_def lex_eval JSON_parse_def parseText_def)

text \<open>
  C8: the fence markers are not always removed. For the content
  \<^verbatim>\<open>```json\<close>, line feed, \<open>{"a":"b"}\<close>, line feed, \<^verbatim>\<open>```\<close> the call resolves to the
  object written again, as the claim says. With one space after the closing fence, the
  pattern anchored at the end of the content does not match, \<open>trim\<close> removes the space
  only afterwards, the closing fence stays, and the call rejects with the format error.
\<close>

theorem fence_before_trailing_space_is_kept:
  "translate (envOf [lineFenced]) (js ''{}'') (js ''French'') None None (Some alwaysReturns)
     = Some \<lparr>outcome = Resolves (js ''{'' @ [LF] @ js ''  \"a\": \"b\"'' @ [LF] @ js ''}''),
             progressValues = [], streamValues = [rawFenced]\<rparr>
   \<and> chunkContent lineFencedSpace = rawFenced @ js '' ''
   \<and> cleanJsonString (rawFenced @ js '' '') = js ''{\"a\":\"b\"}'' @ [LF] @ fence
   \<and> translate (envOf [lineFencedSpace]) (js ''{}'') (js ''French'') None None
         (Some alwaysReturns)
     = Some \<lparr>outcome = Rejects (formatError (syntaxErrorMessage
                 (js ''{\"a\":\"b\"}'' @ [LF] @ fence))),
             progressValues = [], streamValues = [rawFenced @ js '' '']\<rparr>"
proof (intro conjI)
  have "validate None t rawFenced
          = Resolves (js ''{'' @ [LF] @ js ''  \"a\": \"b\"'' @ [LF] @ js ''}'')" for t
    unfolding validate_def parse_rawFenced by (simp only: sum.case stringify_a_b)
  then show "translate (envOf [lineFenced]) (js ''{}'') (js ''French'') None None
        (Some alwaysReturns)
      = Some \<lparr>outcome = Resolves (js ''{'' @ [LF] @ js ''  \"a\": \"b\"'' @ [LF] @ js ''}''),
              progressValues = [], streamValues = [rawFenced]\<rparr>"
    unfolding translate_envOf
    by (simp add: chunk_lineFenced settle_def initialState_def
        reportStream_def reportProgress_def accumulate_def record_call_def)
next
  show "chunkContent lineFencedSpace = rawFenced @ js '' ''"
    by (fact chunk_lineFencedSpace)
next
  show "cleanJsonString (rawFenced @ js '' '') = js ''{\"a\":\"b\"}'' @ [LF] @ fence"
    by (fact clean_rawFenced_space)
next
  have "JSON_parse (cleanJsonString (rawFenced @ js '' '')) =
      Inl (syntaxErrorMessage (js ''{\"a\":\"b\"}'' @ [LF] @ fence))"
    by (simp only: clean_rawFenced_space parse_fence_kept)
  then have "validate None t (rawFenced @ js '' '')
      = Rejects (formatError (syntaxErrorMessage (js ''{\"a\":\"b\"}'' @ [LF] @ fence)))" for t
    by (simp add: validate_def catchHandler_def formatError_def)
  then show "translate (envOf [lineFencedSpace]) (js ''{}'') (js ''French'') None None
        (Some alwaysReturns)
      = Some \<lparr>outcome = Rejects (formatError (syntaxErrorMessage
                  (js ''{\"a\":\"b\"}'' @ [LF] @ fence))),
              progressValues = [], streamValues = [rawFenced @ js '' '']\<rparr>"
    unfolding translate_envOf
    by (simp add: chunk_lineFencedSpace settle_def initialState_def
        reportStream_def reportProgress_def accumulate_def record_call_def)
qed

section \<open>Binary64 rounding\<close>

lemma pow2_powi: "pow2 e = 2 powi e"
  by (simp add: pow2_def power_int_def field_simps)

lemma pow2_pos [simp]: "0 < pow2 e"
  by (simp add: pow2_powi)

lemma pow2_add: "pow2 (a + b) = pow2 a * pow2 b"
  by (simp add: pow2_powi power_int_add)

lemma pow2_nat: "pow2 (int n) = 2 ^ n"
  by (simp add: pow2_def)

lemma pow2_mono: "a \<le> b \<Longrightarrow> pow2 a \<le> pow2 b"
  by (simp add: pow2_powi power_int_increasing)

lemma pow2_strict_mono: "a < b \<Longrightarrow> pow2 a < pow2 b"
  by (simp add: pow2_powi power_int_strict_increasing)

lemma pow2_less_iff: "pow2 a < pow2 b \<longleftrightarrow> a < b"
  using pow2_strict_mono [of a b] pow2_mono [of b a] by (cases "a < b") auto

lemma pow2_le_iff: "pow2 a \<le> pow2 b \<longleftrightarrow> a \<le> b"
  using pow2_strict_mono [of b a] pow2_mono [of a b] by (cases "a \<le> b") auto

lemma pow2_diff_int: "a \<le> b \<Longrightarrow> pow2 b = of_int (2 ^ nat (b - a)) * pow2 a"
proof -
  assume "a \<le> b"
  then have "pow2 b = pow2 (int (nat (b - a)) + a)" by simp
  also have "\<dots> = 2 ^ nat (b - a) * pow2 a"
    by (simp only: pow2_add pow2_nat)
  finally show ?thesis by simp
qed

lemma bits_bounds: "0 < n \<Longrightarrow> 2 ^ (bits n - 1) \<le> n \<and> n < 2 ^ bits n"
proof (induction n rule: bits.induct)
  case (1 n)
  show ?case
  proof (cases "n div 2 = 0")
    case True
    with "1.prems" have "n = 1" by (simp add: div_eq_0_iff)
    then show ?thesis by (simp add: bits.simps)
  next
    case False
    then have pos: "0 < n div 2" by simp
    from "1.prems" have n0: "n \<noteq> 0" by simp
    from "1.IH" [OF n0 pos] have ih: "2 ^ (bits (n div 2) - 1) \<le> n div 2" "n div 2 < 2 ^ bits (n div 2)"
      by simp_all
    have b: "bits n = Suc (bits (n div 2))"
      using n0 by (subst bits.simps) simp
    have bp: "0 < bits (n div 2)"
      using pos by (subst bits.simps) simp
    then have e: "2 ^ bits (n div 2) = 2 * (2::nat) ^ (bits (n div 2) - 1)"
      by (cases "bits (n div 2)") simp_all
    have "2 * 2 ^ (bits (n div 2) - 1) \<le> n"
      using ih(1) by arith
    moreover have "n < 2 * 2 ^ bits (n div 2)"
      using ih(2) by arith
    ultimately show ?thesis
      by (simp add: b e)
  qed
qed

lemma bits_pos: "0 < n \<Longrightarrow> 0 < bits n"
  by (subst bits.simps) simp

lemma floor_log2_bounds:
  assumes "0 < x"
  shows "pow2 (floor_log2 x) \<le> x" and "x < pow2 (floor_log2 x + 1)"
proof -
  have "pow2 (floor_log2 x) \<le> x \<and> x < pow2 (floor_log2 x + 1)"
  proof (cases "1 \<le> x")
    case True
    define n where "n = nat \<lfloor>x\<rfloor>"
    have n1: "0 < n" using True by (simp add: n_def)
    have f0: "0 \<le> \<lfloor>x\<rfloor>" using True by simp
    have nx: "of_nat n \<le> x" "x < of_nat n + 1"
      using floor_correct [of x] f0 by (simp_all add: n_def)
    from bits_bounds [OF n1] have b: "2 ^ (bits n - 1) \<le> n" "n < 2 ^ bits n" by simp_all
    have fl: "floor_log2 x = int (bits n - 1)"
      using True bits_pos [OF n1] by (simp add: floor_log2_def n_def)
    have "(2::rat) ^ (bits n - 1) \<le> of_nat n"
      using b(1) by (metis of_nat_le_iff of_nat_numeral of_nat_power)
    then have lo: "pow2 (floor_log2 x) \<le> x"
      unfolding fl pow2_nat using nx(1) by (rule order_trans)
    have "n + 1 \<le> 2 ^ bits n" using b(2) by simp
    then have "(of_nat (n + 1) :: rat) \<le> of_nat (2 ^ bits n)"
      by (simp only: of_nat_le_iff)
    then have e1: "of_nat n + 1 \<le> (2::rat) ^ bits n" by simp
    have e2: "floor_log2 x + 1 = int (bits n)"
      using bits_pos [OF n1] by (simp add: fl)
    have "x < pow2 (floor_log2 x + 1)"
      unfolding e2 pow2_nat using nx(2) e1 by (rule less_le_trans)
    with lo show ?thesis by simp
  next
    case False
    define y where "y = 1 / x"
    have y1: "1 < y" using False assms by (simp add: y_def)
    define m where "m = nat (\<lceil>y\<rceil> - 1)"
    have c2: "2 \<le> \<lceil>y\<rceil>" using y1 by (simp add: le_ceiling_iff)
    then have m1: "0 < m" by (simp add: m_def)
    have my: "of_nat m < y" "y \<le> of_nat m + 1"
    proof -
      have "of_int (\<lceil>y\<rceil> - 1) < y" by linarith
      moreover have "y \<le> of_int \<lceil>y\<rceil>" by simp
      moreover have "(of_nat m :: rat) = of_int (\<lceil>y\<rceil> - 1)"
        using c2 by (simp add: m_def)
      ultimately show "of_nat m < y" "y \<le> of_nat m + 1" by simp_all
    qed
    from bits_bounds [OF m1] have b: "2 ^ (bits m - 1) \<le> m" "m < 2 ^ bits m" by simp_all
    have fl: "floor_log2 x = - int (bits m)"
      using False by (simp add: floor_log2_def m_def y_def)
    have "(2::rat) ^ (bits m - 1) \<le> of_nat m"
      using b(1) by (metis of_nat_le_iff of_nat_numeral of_nat_power)
    then have lo: "(2::rat) ^ (bits m - 1) < y" using my(1) by (rule le_less_trans)
    have "m + 1 \<le> 2 ^ bits m" using b(2) by simp
    then have "(of_nat (m + 1) :: rat) \<le> of_nat (2 ^ bits m)"
      by (simp only: of_nat_le_iff)
    then have "of_nat m + 1 \<le> (2::rat) ^ bits m" by simp
    with my(2) have hi: "y \<le> (2::rat) ^ bits m" by (rule order_trans)
    have x: "x = 1 / y" using assms by (simp add: y_def)
    have ypos: "0 < y" using y1 by simp
    have p1: "pow2 (- int (bits m)) = 1 / 2 ^ bits m"
      by (simp add: pow2_def)
    have p2: "pow2 (- int (bits m) + 1) = 1 / 2 ^ (bits m - 1)"
      using bits_pos [OF m1] by (cases "bits m") (simp_all add: pow2_def)
    have a: "1 / 2 ^ bits m \<le> x"
      unfolding x using hi ypos by (simp add: frac_le)
    have c: "x < 1 / 2 ^ (bits m - 1)"
      unfolding x using lo by (simp add: frac_less2)
    have fl1: "floor_log2 x + 1 = - int (bits m) + 1"
      by (simp add: fl)
    show ?thesis
      unfolding fl1 p2 unfolding fl p1 using a c by (rule conjI)
  qed
  then show "pow2 (floor_log2 x) \<le> x" and "x < pow2 (floor_log2 x + 1)" by simp_all
qed

lemma floor_log2_unique:
  assumes "pow2 e \<le> x" and "x < pow2 (e + 1)"
  shows "floor_log2 x = e"
proof -
  have x: "0 < x" using assms(1) pow2_pos [of e] by linarith
  from floor_log2_bounds [OF x] assms
  have "pow2 (floor_log2 x) < pow2 (e + 1)" "pow2 e < pow2 (floor_log2 x + 1)"
    by linarith+
  then show ?thesis by (simp add: pow2_less_iff)
qed

lemma floor_log2_mono:
  assumes "0 < x" and "x \<le> y"
  shows "floor_log2 x \<le> floor_log2 y"
proof -
  have y: "0 < y" using assms by simp
  from floor_log2_bounds(1) [OF assms(1)] floor_log2_bounds(2) [OF y] assms(2)
  have "pow2 (floor_log2 x) < pow2 (floor_log2 y + 1)" by linarith
  then show ?thesis by (simp add: pow2_less_iff)
qed

lemma pow2_nonneg [simp]: "0 \<le> pow2 e"
  using pow2_pos [of e] by (rule less_imp_le)

lemma pow2_ne0 [simp]: "pow2 e \<noteq> 0"
  using pow2_pos [of e] by (rule less_imp_neq [symmetric])

lemma pow2_1 [simp]: "pow2 1 = 2"
  by (simp add: pow2_def)

declare pow2_pos [simp]

lemma round_pos_rounded:
  "round_pos x = (if pow2 1024 \<le> rounded x then PosInf else Fin (rounded x))"
  by (simp add: round_pos_def rounded_def expo_def Let_def)

lemma rhe_int [simp]: "round_half_even (of_int k) = k"
  by (simp add: round_half_even_def)

lemma rhe_bounds: "\<lfloor>x\<rfloor> \<le> round_half_even x" "round_half_even x \<le> \<lfloor>x\<rfloor> + 1"
  by (simp_all add: round_half_even_def Let_def)

lemma rhe_mono:
  assumes "x \<le> y"
  shows "round_half_even x \<le> round_half_even y"
proof (cases "\<lfloor>x\<rfloor> = \<lfloor>y\<rfloor>")
  case True
  with assms have "x - of_int \<lfloor>x\<rfloor> \<le> y - of_int \<lfloor>y\<rfloor>" by simp
  with True show ?thesis
    by (auto simp: round_half_even_def Let_def)
next
  case False
  with assms have "\<lfloor>x\<rfloor> < \<lfloor>y\<rfloor>"
    using floor_mono [OF assms] by simp
  then have "\<lfloor>x\<rfloor> + 1 \<le> \<lfloor>y\<rfloor>" by simp
  with rhe_bounds(2) [of x] rhe_bounds(1) [of y] show ?thesis by linarith
qed

lemma rhe_le_int: "x \<le> of_int k \<Longrightarrow> round_half_even x \<le> k"
  using rhe_mono [of x "of_int k"] by simp

lemma rhe_ge_int: "of_int k \<le> x \<Longrightarrow> k \<le> round_half_even x"
  using rhe_mono [of "of_int k" x] by simp

lemma expo_ge: "- 1074 \<le> expo x" "floor_log2 x - 52 \<le> expo x"
  by (simp_all add: expo_def)

lemma expo_mono: "0 < x \<Longrightarrow> x \<le> y \<Longrightarrow> expo x \<le> expo y"
  using floor_log2_mono [of x y] by (simp add: expo_def)

lemma pow2_numeral: "pow2 (numeral n) = 2 ^ numeral n"
  by (simp add: pow2_def)

lemma div_pow2_le: "x \<le> c * pow2 e \<Longrightarrow> x / pow2 e \<le> c"
  by (simp add: pos_divide_le_eq)

lemma div_pow2_ge: "c * pow2 e \<le> x \<Longrightarrow> c \<le> x / pow2 e"
  by (simp add: pos_le_divide_eq)

text \<open>The scaled mantissa is at most \<open>2^53\<close>.\<close>

lemma scaled_less:
  assumes "0 < x"
  shows "x / pow2 (expo x) < 2 ^ 53"
proof -
  have "floor_log2 x + 1 \<le> expo x + 53"
    using expo_ge(2) [of x] by simp
  then have "pow2 (floor_log2 x + 1) \<le> pow2 (expo x + 53)"
    by (rule pow2_mono)
  with floor_log2_bounds(2) [OF assms] have "x < pow2 (expo x + 53)" by simp
  then have "x < 2 ^ 53 * pow2 (expo x)"
    by (simp add: pow2_add pow2_numeral mult.commute)
  then show ?thesis
    by (simp add: pos_divide_less_eq)
qed

lemma mant_le:
  assumes "0 < x"
  shows "round_half_even (x / pow2 (expo x)) \<le> 2 ^ 53"
proof -
  have "x / pow2 (expo x) \<le> of_int (2 ^ 53)"
    using scaled_less [OF assms] by simp
  then show ?thesis by (rule rhe_le_int)
qed

lemma mant_nonneg: "0 \<le> x \<Longrightarrow> 0 \<le> round_half_even (x / pow2 (expo x))"
  by (rule rhe_ge_int) simp

lemma rounded_nonneg: "0 \<le> x \<Longrightarrow> 0 \<le> rounded x"
  using mant_nonneg [of x] by (simp add: rounded_def)

lemma rounded_le_pow2:
  assumes "0 < x" and "x \<le> pow2 b" and "expo x \<le> b"
  shows "rounded x \<le> pow2 b"
proof -
  have p: "pow2 b = of_int (2 ^ nat (b - expo x)) * pow2 (expo x)"
    using assms(3) by (rule pow2_diff_int)
  have "x / pow2 (expo x) \<le> of_int (2 ^ nat (b - expo x))"
    using assms(2) by (subst (asm) p) (rule div_pow2_le)
  then have "round_half_even (x / pow2 (expo x)) \<le> 2 ^ nat (b - expo x)"
    by (rule rhe_le_int)
  then have "(of_int (round_half_even (x / pow2 (expo x))) :: rat) \<le> of_int (2 ^ nat (b - expo x))"
    by (simp only: of_int_le_iff)
  then show ?thesis
    unfolding rounded_def by (subst p) (simp add: mult_right_mono)
qed

lemma rounded_ge_pow2:
  assumes "pow2 b \<le> x" and "expo x \<le> b"
  shows "pow2 b \<le> rounded x"
proof -
  have p: "pow2 b = of_int (2 ^ nat (b - expo x)) * pow2 (expo x)"
    using assms(2) by (rule pow2_diff_int)
  have "of_int (2 ^ nat (b - expo x)) \<le> x / pow2 (expo x)"
    using assms(1) by (subst (asm) p) (rule div_pow2_ge)
  then have "2 ^ nat (b - expo x) \<le> round_half_even (x / pow2 (expo x))"
    by (rule rhe_ge_int)
  then have "(of_int (2 ^ nat (b - expo x)) :: rat) \<le> of_int (round_half_even (x / pow2 (expo x)))"
    by (simp only: of_int_le_iff)
  then show ?thesis
    unfolding rounded_def by (subst p) (simp add: mult_right_mono)
qed

lemma rounded_mono:
  assumes "0 < x" and "x \<le> y"
  shows "rounded x \<le> rounded y"
proof (cases "expo x = expo y")
  case True
  have "x / pow2 (expo y) \<le> y / pow2 (expo y)"
    using assms(2) by (simp add: divide_right_mono)
  then have "round_half_even (x / pow2 (expo y)) \<le> round_half_even (y / pow2 (expo y))"
    by (rule rhe_mono)
  then have "(of_int (round_half_even (x / pow2 (expo y))) :: rat)
               \<le> of_int (round_half_even (y / pow2 (expo y)))"
    by (simp only: of_int_le_iff)
  then show ?thesis
    by (simp add: rounded_def True mult_right_mono)
next
  case False
  have y: "0 < y" using assms by simp
  from False expo_mono [OF assms] have lt: "expo x < expo y" by simp
  then have ey: "expo y = floor_log2 y - 52"
    using expo_ge(1) [of x] unfolding expo_def by linarith
  define b where "b = floor_log2 y"
  have xb: "x \<le> pow2 b"
  proof -
    have "floor_log2 x + 1 \<le> b"
      using lt ey expo_ge(2) [of x] by (simp add: b_def)
    then have "pow2 (floor_log2 x + 1) \<le> pow2 b" by (rule pow2_mono)
    with floor_log2_bounds(2) [OF assms(1)] show ?thesis by simp
  qed
  have "rounded x \<le> pow2 b"
    using assms(1) xb by (rule rounded_le_pow2) (use lt ey in \<open>simp add: b_def\<close>)
  moreover have "pow2 b \<le> rounded y"
    by (rule rounded_ge_pow2) (use floor_log2_bounds(1) [OF y] ey in \<open>simp_all add: b_def\<close>)
  ultimately show ?thesis by simp
qed

text \<open>A multiple of its own quantum is a binary64 value: rounding leaves it as it is.\<close>

lemma rounded_exact:
  assumes "x = of_int k * pow2 (expo x)"
  shows "rounded x = x"
proof -
  have "x / pow2 (expo x) = of_int k"
    by (subst assms) simp
  then show ?thesis
    using assms by (simp add: rounded_def)
qed

lemma rounded_multiple:
  assumes "0 < x" and "x = of_int k * pow2 e" and "expo x \<le> e"
  shows "rounded x = x"
proof -
  have "pow2 e = of_int (2 ^ nat (e - expo x)) * pow2 (expo x)"
    using assms(3) by (rule pow2_diff_int)
  then have "x = of_int (k * 2 ^ nat (e - expo x)) * pow2 (expo x)"
    by (subst assms(2)) simp
  then show ?thesis by (rule rounded_exact)
qed

lemma rounded_idem:
  assumes "0 < x" and "0 < rounded x"
  shows "rounded (rounded x) = rounded x"
proof -
  define m where "m = round_half_even (x / pow2 (expo x))"
  define r where "r = rounded x"
  have r: "r = of_int m * pow2 (expo x)"
    by (simp add: r_def rounded_def m_def)
  have rpos: "0 < r" using assms(2) by (simp add: r_def)
  have m53: "m \<le> 2 ^ 53"
    unfolding m_def using assms(1) by (rule mant_le)
  show ?thesis
  proof (cases "m = 2 ^ 53")
    case True
    have r2: "r = pow2 (expo x + 53)"
      by (simp add: r True pow2_add pow2_numeral)
    have "floor_log2 r = expo x + 53"
      by (rule floor_log2_unique) (simp_all add: r2 pow2_le_iff pow2_less_iff)
    then have er: "expo r = expo x + 1"
      using expo_ge(1) [of x] by (simp add: expo_def)
    have h: "pow2 (expo x + 53) = of_int (2 ^ 52) * pow2 (expo x + 1)"
      by (simp add: pow2_add pow2_numeral)
    have "r = of_int (2 ^ 52) * pow2 (expo r)"
      unfolding er using r2 h by (rule trans)
    then have "rounded r = r" by (rule rounded_exact)
    then show ?thesis by (simp add: r_def)
  next
    case False
    with m53 have "m \<le> 2 ^ 53 - 1" by simp
    then have "(of_int m :: rat) \<le> of_int (2 ^ 53 - 1)"
      by (simp only: of_int_le_iff)
    then have "of_int m < (2::rat) ^ 53" by simp
    then have "r < 2 ^ 53 * pow2 (expo x)"
      by (simp add: r)
    then have "r < pow2 (expo x + 53)"
      by (simp add: pow2_add pow2_numeral mult.commute)
    with floor_log2_bounds(1) [OF rpos] have "pow2 (floor_log2 r) < pow2 (expo x + 53)"
      by simp
    then have "floor_log2 r < expo x + 53" by (simp add: pow2_less_iff)
    then have "expo r \<le> expo x"
      using expo_ge(1) [of x] by (simp add: expo_def)
    with rpos r have "rounded r = r" by (rule rounded_multiple)
    then show ?thesis by (simp add: r_def)
  qed
qed

lemma isB64_nonneg: "isB64 a \<Longrightarrow> nonneg a"
  by (cases a) auto

lemma nle_refl: "nonneg a \<Longrightarrow> nle a a"
  by (cases a) auto

lemma nle_trans: "nle a b \<Longrightarrow> nle b c \<Longrightarrow> nle a c"
  by (cases a; cases b; cases c) auto

lemma round_pos_nonneg: "0 < x \<Longrightarrow> nonneg (round_pos x)"
  using rounded_nonneg [of x] by (simp add: round_pos_rounded)

lemma round_pos_mono: "0 < x \<Longrightarrow> x \<le> y \<Longrightarrow> nle (round_pos x) (round_pos y)"
  using rounded_mono [of x y] by (auto simp: round_pos_rounded)

lemma round_pos_isB64:
  assumes "0 < x"
  shows "isB64 (round_pos x)"
proof (cases "pow2 1024 \<le> rounded x")
  case True
  then show ?thesis by (simp add: round_pos_rounded)
next
  case False
  show ?thesis
  proof (cases "rounded x = 0")
    case True
    with False show ?thesis by (simp add: round_pos_rounded)
  next
    case nz: False
    with rounded_nonneg [of x] assms have pos: "0 < rounded x" by simp
    from rounded_idem [OF assms pos] False pos show ?thesis
      by (simp add: round_pos_rounded)
  qed
qed

lemma b64_nonneg: "0 \<le> x \<Longrightarrow> isB64 (b64 x)"
  using round_pos_isB64 [of x] by (simp add: b64_def)

lemma nle_zero: "nonneg a \<Longrightarrow> nle (Fin 0) a"
  by (cases a) simp_all

lemma b64_mono:
  assumes "0 \<le> x" and "x \<le> y"
  shows "nle (b64 x) (b64 y)"
proof (cases "x = 0")
  case True
  have "nonneg (b64 y)"
    using assms by (intro isB64_nonneg b64_nonneg) simp
  then show ?thesis
    by (simp add: True b64_def [of 0] nle_zero)
next
  case False
  with assms have "0 < x" "0 < y" by simp_all
  then show ?thesis
    using round_pos_mono [OF \<open>0 < x\<close> assms(2)] by (simp add: b64_def)
qed

lemma b64_isB64_id: "isB64 (Fin q) \<Longrightarrow> b64 q = Fin q"
  by (auto simp: b64_def)

text \<open>Division by a positive finite number, on non-negative numbers.\<close>

lemma num_div_Fin:
  "0 \<le> q \<Longrightarrow> 0 < e \<Longrightarrow> num_div (Fin q) (Fin e) = b64 (q / e)"
  by (simp add: num_div_def zeroOf_def b64_def)

lemma num_div_PosInf: "0 < e \<Longrightarrow> num_div PosInf (Fin e) = PosInf"
  by (simp add: num_div_def infOf_def)

lemma num_div_isB64: "nonneg a \<Longrightarrow> 0 < e \<Longrightarrow> isB64 (num_div a (Fin e))"
  by (cases a) (simp_all add: num_div_Fin num_div_PosInf b64_nonneg)

lemma num_div_mono:
  assumes "nonneg a" and "nle a b" and "0 < e"
  shows "nle (num_div a (Fin e)) (num_div b (Fin e))"
proof (cases a)
  case (Fin q)
  with assms(1) have q: "0 \<le> q" by simp
  show ?thesis
  proof (cases b)
    case (Fin r)
    with assms(2) \<open>a = Fin q\<close> have "q \<le> r" by simp
    with q assms(3) have "q / e \<le> r / e" "0 \<le> q / e" "0 \<le> r"
      by (simp_all add: divide_right_mono)
    then show ?thesis
      using q assms(3) by (simp add: \<open>a = Fin q\<close> Fin num_div_Fin b64_mono)
  next
    case PosInf
    have "nonneg (b64 (q / e))"
      using q assms(3) by (intro isB64_nonneg b64_nonneg) simp
    then show ?thesis
      using q assms(3)
      by (cases "b64 (q / e)") (simp_all add: \<open>a = Fin q\<close> PosInf num_div_Fin num_div_PosInf)
  qed (use assms(2) \<open>a = Fin q\<close> in simp_all)
next
  case PosInf
  with assms(2) have "b = PosInf" by (cases b) simp_all
  with PosInf assms(3) show ?thesis by (simp add: num_div_PosInf)
qed (use assms(1) in simp_all)

lemma num_mul_Fin:
  "0 \<le> q \<Longrightarrow> 0 < c \<Longrightarrow> num_mul (Fin q) (Fin c) = b64 (q * c)"
  by (simp add: num_mul_def zeroOf_def b64_def)

lemma num_mul_PosInf: "0 < c \<Longrightarrow> num_mul PosInf (Fin c) = PosInf"
  by (simp add: num_mul_def infOf_def)

lemma num_mul_isB64: "nonneg a \<Longrightarrow> 0 < c \<Longrightarrow> isB64 (num_mul a (Fin c))"
  by (cases a) (simp_all add: num_mul_Fin num_mul_PosInf b64_nonneg)

lemma num_mul_mono:
  assumes "nonneg a" and "nle a b" and "0 < c"
  shows "nle (num_mul a (Fin c)) (num_mul b (Fin c))"
proof (cases a)
  case (Fin q)
  with assms(1) have q: "0 \<le> q" by simp
  show ?thesis
  proof (cases b)
    case (Fin r)
    with assms(2) \<open>a = Fin q\<close> have "q \<le> r" by simp
    with q assms(3) have "q * c \<le> r * c" "0 \<le> q * c" "0 \<le> r"
      by (simp_all add: mult_right_mono)
    then show ?thesis
      using q assms(3) by (simp add: \<open>a = Fin q\<close> Fin num_mul_Fin b64_mono)
  next
    case PosInf
    have "nonneg (b64 (q * c))"
      using q assms(3) by (intro isB64_nonneg b64_nonneg) simp
    then show ?thesis
      using q assms(3)
      by (cases "b64 (q * c)") (simp_all add: \<open>a = Fin q\<close> PosInf num_mul_Fin num_mul_PosInf)
  qed (use assms(2) \<open>a = Fin q\<close> in simp_all)
next
  case PosInf
  with assms(2) have "b = PosInf" by (cases b) simp_all
  with PosInf assms(3) show ?thesis by (simp add: num_mul_PosInf)
qed (use assms(1) in simp_all)

lemma Math_round_nonneg: "nonneg a \<Longrightarrow> nonneg (Math_round a)"
  by (cases a) simp_all

lemma Math_round_mono: "nonneg a \<Longrightarrow> nle a b \<Longrightarrow> nle (Math_round a) (Math_round b)"
  by (cases a; cases b) (auto intro!: floor_mono)

lemma min_round_percentage: "nonneg a \<Longrightarrow> percentage (Math_min (Math_round a) (Fin 100))"
  by (cases a) (auto simp: Math_min_def)

lemma min_round_mono:
  "nonneg a \<Longrightarrow> nle a b \<Longrightarrow>
   nle (Math_min (Math_round a) (Fin 100)) (Math_min (Math_round b) (Fin 100))"
  by (cases a; cases b) (auto simp: Math_min_def not_less intro: floor_mono)

lemma scaled_nonneg:
  assumes "nonneg a" and "0 < e"
  shows "nonneg (num_div a (Fin e))" and "nonneg (num_mul (num_div a (Fin e)) (Fin 100))"
proof -
  show d: "nonneg (num_div a (Fin e))"
    using num_div_isB64 [OF assms] by (rule isB64_nonneg)
  have "isB64 (num_mul (num_div a (Fin e)) (Fin 100))"
    using d by (rule num_mul_isB64) simp
  then show "nonneg (num_mul (num_div a (Fin e)) (Fin 100))"
    by (rule isB64_nonneg)
qed

lemma progressOf_percentage:
  assumes "nonneg a" and "0 < e"
  shows "percentage (progressOf a (Fin e))"
  unfolding progressOf_def using scaled_nonneg(2) [OF assms] by (rule min_round_percentage)

lemma progressOf_mono:
  assumes "nonneg a" and "nle a b" and "0 < e"
  shows "nle (progressOf a (Fin e)) (progressOf b (Fin e))"
proof -
  have "nle (num_div a (Fin e)) (num_div b (Fin e))"
    using assms by (rule num_div_mono)
  with scaled_nonneg(1) [OF assms(1,3)]
  have "nle (num_mul (num_div a (Fin e)) (Fin 100)) (num_mul (num_div b (Fin e)) (Fin 100))"
    by (rule num_mul_mono) simp
  with scaled_nonneg(2) [OF assms(1,3)] show ?thesis
    unfolding progressOf_def by (rule min_round_mono)
qed

section \<open>Progress values\<close>

lemma num_add_isB64:
  assumes "isB64 a" and "isB64 d"
  shows "isB64 (num_add a d)" and "nle a (num_add a d)"
proof -
  have "isB64 (num_add a d) \<and> nle a (num_add a d)"
  proof (cases a)
    case (Fin q)
    with assms(1) have q: "0 \<le> q" by auto
    show ?thesis
    proof (cases d)
      case dr: (Fin r)
      with assms(2) have r: "0 \<le> r" by auto
      have s: "num_add (Fin q) d = b64 (q + r)"
        by (simp add: num_add_def dr)
      have "nle (b64 q) (b64 (q + r))"
        using q r by (intro b64_mono) simp_all
      moreover have "b64 q = Fin q"
        using assms(1) Fin by (simp add: b64_isB64_id)
      moreover have "isB64 (b64 (q + r))"
        using q r by (intro b64_nonneg) simp
      ultimately show ?thesis unfolding Fin s by simp
    next
      case PosInf
      then show ?thesis by (simp add: num_add_def Fin)
    qed (use assms(2) in simp_all)
  next
    case PosInf
    with assms(2) show ?thesis
      by (cases d) (simp_all add: num_add_def)
  qed (use assms(1) in simp_all)
  then show "isB64 (num_add a d)" and "nle a (num_add a d)" by simp_all
qed

lemma quarter_isB64: "isB64 (num_div (lengthNum c) (Fin 4))"
  by (rule num_div_isB64) (simp_all add: lengthNum_def)

lemma percentage_nonneg: "percentage p \<Longrightarrow> nonneg p"
  by (cases p) simp_all

lemma accumulate_inv:
  assumes "progressInv est st" and "positiveFinite est"
  shows "progressInv est (accumulate st c)"
proof -
  obtain e where est: "est = Fin e" and e: "0 < e"
    using assms(2) by (cases est) simp_all
  let ?tc = "num_add (tokenCount st) (num_div (lengthNum c) (Fin 4))"
  from assms(1) have b: "isB64 (tokenCount st)" by (simp add: progressInv_def)
  from num_add_isB64 [OF b quarter_isB64 [of c]]
  have b': "isB64 ?tc" and le: "nle (tokenCount st) ?tc" by simp_all
  have up: "nle (progressOf (tokenCount st) est) (progressOf ?tc est)"
    unfolding est using isB64_nonneg [OF b] le e by (rule progressOf_mono)
  have "\<forall>p \<in> set (progressCalls st). percentage p \<and> nle p (progressOf ?tc est)"
    using assms(1) up by (auto simp: progressInv_def intro: nle_trans)
  with b' assms(1) show ?thesis
    by (simp add: progressInv_def accumulate_def)
qed

lemma reportProgress_inv:
  assumes "progressInv est st" and "positiveFinite est"
  shows "progressInv est (reportProgress onProgress est st)"
proof (cases onProgress)
  case None
  with assms(1) show ?thesis
    by (simp add: progressInv_def reportProgress_def record_call_def)
next
  case (Some f)
  obtain e where est: "est = Fin e" and e: "0 < e"
    using assms(2) by (cases est) simp_all
  from assms(1) have b: "nonneg (tokenCount st)"
    by (simp add: progressInv_def isB64_nonneg)
  have p: "percentage (progressOf (tokenCount st) est)"
    unfolding est using b e by (rule progressOf_percentage)
  then have "nle (progressOf (tokenCount st) est) (progressOf (tokenCount st) est)"
    by (intro nle_refl percentage_nonneg)
  with assms(1) p show ?thesis
    by (auto simp: progressInv_def reportProgress_def record_call_def Some sorted_wrt_append)
qed

lemma reportStream_inv: "progressInv est st \<Longrightarrow> progressInv est (reportStream onStream st)"
  by (simp add: progressInv_def reportStream_def)

lemma processChunk_inv:
  assumes "progressInv est st" and "positiveFinite est"
  shows "progressInv est (snd (processChunk onProgress onStream est i st chunk))"
proof -
  have "progressInv est (accumulate st (chunkContent chunk))"
    using assms by (rule accumulate_inv)
  then have r: "progressInv est
      (reportProgress onProgress est (accumulate st (chunkContent chunk)))"
    using assms(2) by (rule reportProgress_inv)
  then show ?thesis
    using reportStream_inv [OF r, of onStream]
    by (simp add: processChunk_def split: option.splits)
qed

lemma readLoop_inv:
  assumes "readLoop rd onProgress onStream est i st = Some y"
  shows "positiveFinite est \<longrightarrow> progressInv est st \<longrightarrow> progressInv est (snd (snd y))"
proof (rule readLoop.raw_induct
    [where P = "\<lambda>rd onProgress onStream est i st y.
       positiveFinite est \<longrightarrow> progressInv est st \<longrightarrow> progressInv est (snd (snd y))",
     OF _ assms], goal_cases)
  case (1 f rd onProgress onStream est i st y)
  note ih = "1"(1) and eq = "1"(2)
  show ?case
  proof (intro impI)
    assume pf: "positiveFinite est" and inv: "progressInv est st"
    show "progressInv est (snd (snd y))"
    proof (cases "rd i")
      case (Chunk chunk)
      obtain eo st' where pc: "processChunk onProgress onStream est i st chunk = (eo, st')"
        by (cases "processChunk onProgress onStream est i st chunk")
      from processChunk_inv [OF inv pf, of onProgress onStream i chunk] pc
      have inv': "progressInv est st'" by simp
      show ?thesis
      proof (cases eo)
        case None
        with eq Chunk pc have "f rd onProgress onStream est (Suc i) st' = Some y"
          by simp
        from ih [OF this] pf inv' show ?thesis by simp
      next
        case (Some e)
        with eq Chunk pc inv' show ?thesis by auto
      qed
    next
      case Done
      with eq inv show ?thesis by auto
    next
      case (ReadFails e)
      with eq inv show ?thesis by auto
    qed
  qed
qed

lemma initial_inv: "progressInv est initialState"
  by (simp add: progressInv_def initialState_def)

lemma pow2_neg2: "pow2 (- 2) = 1 / 4"
  by (simp add: pow2_def)

lemma quarter_exact:
  assumes "0 < n" and "n < 2 ^ 53"
  shows "round_pos (of_nat n / 4) = Fin (of_nat n / 4)"
proof -
  define x :: rat where "x = of_nat n / 4"
  have pos: "0 < x" using assms(1) by (simp add: x_def)
  have "(of_nat n :: rat) < of_nat (2 ^ 53)"
    using assms(2) by (simp only: of_nat_less_iff)
  then have lt: "x < pow2 51"
    by (simp add: x_def pow2_numeral)
  with floor_log2_bounds(1) [OF pos] have "pow2 (floor_log2 x) < pow2 51" by simp
  then have "floor_log2 x < 51" by (simp add: pow2_less_iff)
  then have e: "expo x \<le> - 2" by (simp add: expo_def)
  have "x = of_int (int n) * pow2 (- 2)"
    by (simp add: x_def pow2_neg2)
  with pos have r: "rounded x = x" using e by (rule rounded_multiple)
  have "pow2 51 \<le> pow2 1024" by (rule pow2_mono) simp
  with lt have "\<not> pow2 1024 \<le> x" by simp
  with r show ?thesis
    by (simp add: round_pos_rounded x_def)
qed

lemma b64_quarter: "n < 2 ^ 53 \<Longrightarrow> b64 (of_nat n / 4) = Fin (of_nat n / 4)"
  using quarter_exact [of n] by (cases "n = 0") (simp_all add: b64_def)

lemma num_div_quarter:
  "n < 2 ^ 53 \<Longrightarrow> num_div (Fin (of_nat n)) (Fin 4) = Fin (of_nat n / 4)"
  by (simp add: num_div_Fin b64_quarter)

lemma estimated_exact:
  "length text < 2 ^ 53 \<Longrightarrow> estimated text = Fin (of_nat (length text) / 4)"
  by (simp add: estimated_def lengthNum_def num_div_quarter)

lemma estimated_positive:
  "text \<noteq> [] \<Longrightarrow> length text < 2 ^ 53 \<Longrightarrow> positiveFinite (estimated text)"
  by (simp add: estimated_exact)

lemma progressInv_result:
  assumes "progressInv est st"
  shows "list_all percentage (progressCalls st) \<and> sorted_wrt nle (progressCalls st)"
  using assms by (simp add: progressInv_def list_all_iff)

lemma progressValues_settle [simp]: "progressValues (settle out st) = progressCalls st"
  by (simp add: settle_def)

lemma progressValues_afterLoop: "progressValues (afterLoop sig y) = progressCalls (snd (snd y))"
  by (cases "(sig, y)" rule: afterLoop.cases) simp_all

lemma add_quarters:
  assumes "a + c < 2 ^ 53"
  shows "num_add (Fin (of_nat a / 4)) (num_div (Fin (of_nat c)) (Fin 4)) = Fin (of_nat (a + c) / 4)"
proof -
  have c: "c < 2 ^ 53" using assms by simp
  have "num_add (Fin (of_nat a / 4)) (Fin (of_nat c / 4)) = b64 (of_nat a / 4 + of_nat c / 4)"
    by (simp add: num_add_def)
  also have "\<dots> = b64 (of_nat (a + c) / 4)"
    by (simp add: add_divide_distrib)
  also have "\<dots> = Fin (of_nat (a + c) / 4)"
    using assms by (rule b64_quarter)
  finally show ?thesis
    by (simp only: num_div_quarter [OF c])
qed

lemma progressOf_quarters:
  "progressOf (Fin (of_nat t / 4)) (Fin (of_nat l / 4)) = codeProgress l t"
proof -
  have "num_div (Fin (of_nat t / 4)) (Fin (of_nat l / 4)) = num_div (Fin (of_nat t)) (Fin (of_nat l))"
    by (simp add: num_div_def)
  then show ?thesis
    by (simp only: progressOf_def codeProgress_def)
qed

lemma afterChunks_progress:
  assumes "tokenCount st = Fin (of_nat a / 4)"
    and "a + length (concat (map chunkContent cs)) < 2 ^ 53"
  shows "progressCalls (afterChunks (Some f) onStream est st cs) =
           progressCalls st @ map (\<lambda>t. progressOf (Fin (of_nat t / 4)) est) (totals a cs)"
  using assms
proof (induction cs arbitrary: st a)
  case Nil
  then show ?case by simp
next
  case (Cons c cs)
  let ?st = "reportStream onStream (reportProgress (Some f) est (accumulate st (chunkContent c)))"
  let ?a = "a + length (chunkContent c)"
  have b: "a + length (chunkContent c) < 2 ^ 53"
    using Cons.prems(2) by simp
  have tc: "tokenCount ?st = Fin (of_nat ?a / 4)"
    using add_quarters [OF b]
    by (simp add: reportStream_def reportProgress_def accumulate_def Cons.prems(1) lengthNum_def)
  have pc: "progressCalls ?st = progressCalls st @ [progressOf (Fin (of_nat ?a / 4)) est]"
    using add_quarters [OF b]
    by (simp add: reportStream_def reportProgress_def accumulate_def Cons.prems(1) lengthNum_def
        record_call_def)
  have "?a + length (concat (map chunkContent cs)) < 2 ^ 53"
    using Cons.prems(2) by simp
  from Cons.IH [OF tc this] show ?case
    by (simp add: pc)
qed


lemma translate_envOf_returns:
  assumes "returns onProgress (length cs)" and "returns onStream (length cs)"
  shows "translate (envOf cs) text targetLang sig onProgress onStream =
     Some (settle (validate sig (Suc (length cs)) (concat (map chunkContent cs)))
             (afterChunks onProgress onStream (estimated text) initialState cs))"
proof -
  let ?r = "\<lparr>status = 200, body = Some (readerOf cs)\<rparr>"
  have f: "fetch (envOf cs) = FetchResponse ?r"
    by (simp add: envOf_def)
  have k: "ok ?r"
    by (simp add: ok_def)
  have b: "body ?r = Some (readerOf cs)"
    by simp
  show ?thesis
    by (rule translate_completes [OF configured_envOf f k b delivers_readerOf assms])
qed

lemma length_text40: "length text40 = 40"
  by (simp add: text40_def)

lemma chunk_line10: "chunkContent line10 = js ''0123456789''"
  by (simp add: line10_def line_eval lex_eval parse_eval)

lemma chunk_line13: "chunkContent line13 = js ''0123456789abc''"
  by (simp add: line13_def line_eval lex_eval parse_eval)

lemma chunk_line23: "chunkContent line23 = js ''0123456789abcdefghijklm''"
  by (simp add: line23_def line_eval lex_eval parse_eval)

lemma codeProgress_40_10: "codeProgress 40 10 = Fin 25"
  by (simp add: codeProgress_def number_eval Let_def cong: let_weak_cong)

lemma codeProgress_40_23: "codeProgress 40 23 = Fin 57"
  by (simp add: codeProgress_def number_eval Let_def cong: let_weak_cong)

lemma specProgress_40_23: "specProgress 40 23 = Fin 58"
  by (simp add: specProgress_def)

lemma streamCalls_afterChunks_None:
  "streamCalls (afterChunks onProgress None est st cs) = streamCalls st"
  by (induction cs arbitrary: st)
    (simp_all add: reportStream_def reportProgress_def accumulate_def record_call_def)

lemma invalid_content:
  "JSON_parse (cleanJsonString content) = Inl d \<Longrightarrow>
   validate None t content = Rejects (formatError d)"
  by (simp add: validate_def catchHandler_def formatError_def)

lemma parse_digits23:
  "JSON_parse (cleanJsonString (js ''0123456789abcdefghijklm'')) =
     Inl (syntaxErrorMessage (js ''0123456789abcdefghijklm''))"
  by (simp add: clean_eval lex_eval JSON_parse_def parseText_def)

lemma parse_digits10_13:
  "JSON_parse (cleanJsonString (js ''01234567890123456789abc'')) =
     Inl (syntaxErrorMessage (js ''01234567890123456789abc''))"
  by (simp add: clean_eval lex_eval JSON_parse_def parseText_def)

lemma totals_line23: "totals 0 [line23] = [23]"
  by (simp add: chunk_line23)

lemma totals_line10_13: "totals 0 [line10, line13] = [10, 23]"
  by (simp add: chunk_line10 chunk_line13)

lemma length_content23: "length (chunkContent line23) = 23"
  by (simp add: chunk_line23)

lemma progress_envOf:
  assumes "text \<noteq> []" and "length text < 2 ^ 53"
    and "length (concat (map chunkContent cs)) < 2 ^ 53"
  shows "progressCalls (afterChunks (Some alwaysReturns) None (estimated text) initialState cs)
           = map (codeProgress (length text)) (totals 0 cs)"
proof -
  have l: "0 < length text" using assms(1) by simp
  have "progressCalls (afterChunks (Some alwaysReturns) None (estimated text) initialState cs) =
          progressCalls initialState
          @ map (\<lambda>t. progressOf (Fin (of_nat t / 4)) (estimated text)) (totals 0 cs)"
    using assms(3) by (intro afterChunks_progress) (simp_all add: initialState_def)
  then show ?thesis
    by (simp add: initialState_def estimated_exact [OF assms(2)] progressOf_quarters)
qed

lemma translate_line23:
  "translate (envOf [line23]) text40 (js ''French'') None (Some alwaysReturns) None =
     Some \<lparr>outcome = Rejects (formatError (syntaxErrorMessage (js ''0123456789abcdefghijklm''))),
           progressValues = [Fin 57], streamValues = []\<rparr>"
proof -
  have p: "progressCalls (afterChunks (Some alwaysReturns) None (estimated text40) initialState
             [line23]) = [Fin 57]"
  proof (subst progress_envOf)
    show "text40 \<noteq> []" by (simp add: text40_def)
    show "length text40 < 2 ^ 53" by (simp add: length_text40)
    show "length (concat (map chunkContent [line23])) < 2 ^ 53" by (simp add: chunk_line23)
    show "map (codeProgress (length text40)) (totals 0 [line23]) = [Fin 57]"
      by (simp only: totals_line23 length_text40 list.map codeProgress_40_23)
  qed
  have c: "concat (map chunkContent [line23]) = js ''0123456789abcdefghijklm''"
    by (simp add: chunk_line23)
  have v: "validate None (Suc (length [line23])) (concat (map chunkContent [line23]))
             = Rejects (formatError (syntaxErrorMessage (js ''0123456789abcdefghijklm'')))"
    unfolding c using parse_digits23 by (rule invalid_content)
  have s: "streamCalls (afterChunks (Some alwaysReturns) None (estimated text40) initialState
             [line23]) = []"
    unfolding streamCalls_afterChunks_None by (simp add: initialState_def)
  show ?thesis
    unfolding translate_envOf_returns [OF returns_alwaysReturns returns_None] v settle_def p s
    by (rule refl)
qed

lemma translate_line10_13:
  "translate (envOf [line10, line13]) text40 (js ''French'') None (Some alwaysReturns) None =
     Some \<lparr>outcome = Rejects (formatError (syntaxErrorMessage (js ''01234567890123456789abc''))),
           progressValues = [Fin 25, Fin 57], streamValues = []\<rparr>"
proof -
  have p: "progressCalls (afterChunks (Some alwaysReturns) None (estimated text40) initialState
             [line10, line13]) = [Fin 25, Fin 57]"
  proof (subst progress_envOf)
    show "text40 \<noteq> []" by (simp add: text40_def)
    show "length text40 < 2 ^ 53" by (simp add: length_text40)
    show "length (concat (map chunkContent [line10, line13])) < 2 ^ 53"
      by (simp add: chunk_line10 chunk_line13)
    show "map (codeProgress (length text40)) (totals 0 [line10, line13]) = [Fin 25, Fin 57]"
      by (simp only: totals_line10_13 length_text40 list.map codeProgress_40_10
          codeProgress_40_23)
  qed
  have c: "concat (map chunkContent [line10, line13]) = js ''01234567890123456789abc''"
    by (simp add: chunk_line10 chunk_line13)
  have v: "validate None (Suc (length [line10, line13])) (concat (map chunkContent [line10, line13]))
             = Rejects (formatError (syntaxErrorMessage (js ''01234567890123456789abc'')))"
    unfolding c using parse_digits10_13 by (rule invalid_content)
  have s: "streamCalls (afterChunks (Some alwaysReturns) None (estimated text40) initialState
             [line10, line13]) = []"
    unfolding streamCalls_afterChunks_None by (simp add: initialState_def)
  show ?thesis
    unfolding translate_envOf_returns [OF returns_alwaysReturns returns_None] v settle_def p s
    by (rule refl)
qed

text \<open>
  C5: for a source text that is not empty (and, as every string, shorter than \<open>2^53\<close>
  code units), the values passed to \<open>onProgress\<close> during a call are integers from 0 to
  100 and never decrease.
\<close>

theorem progress_monotone_percentages:
  assumes "text \<noteq> []" and "length text < 2 ^ 53"
    and "translate env text targetLang sig onProgress onStream = Some res"
  shows "list_all percentage (progressValues res) \<and> sorted_wrt nle (progressValues res)"
proof -
  have init: "list_all percentage (progressValues (settle out initialState))
      \<and> sorted_wrt nle (progressValues (settle out initialState))" for out
    by (simp add: initialState_def)
  show ?thesis
  proof (cases "\<exists>r rd. configured env \<and> fetch env = FetchResponse r \<and> ok r \<and> body r = Some rd")
    case True
    then obtain r rd where h: "configured env" "fetch env = FetchResponse r" "ok r"
      "body r = Some rd" by blast
    from assms(3) obtain y where
      y: "readLoop rd onProgress onStream (estimated text) 0 initialState = Some y"
      and res: "res = afterLoop sig y"
      unfolding translate_streaming [OF h] by auto
    from readLoop_inv [OF y] estimated_positive [OF assms(1,2)] initial_inv
    have "progressInv (estimated text) (snd (snd y))" by simp
    then show ?thesis
      unfolding res progressValues_afterLoop by (rule progressInv_result)
  next
    case False
    with assms(3) have "\<exists>out. res = settle out initialState"
      by (auto simp: translate_def configured_def split: if_splits fetch_result.splits
          option.splits)
    with init show ?thesis by blast
  qed
qed

theorem progress_monotone_percentages_witness:
  "text40 \<noteq> [] \<and> length text40 < 2 ^ 53
   \<and> translate (envOf [line10, line13]) text40 (js ''French'') None (Some alwaysReturns) None =
       Some \<lparr>outcome = Rejects (formatError (syntaxErrorMessage (js ''01234567890123456789abc''))),
             progressValues = [Fin 25, Fin 57], streamValues = []\<rparr>
   \<and> list_all percentage [Fin 25, Fin 57] \<and> sorted_wrt nle [Fin 25, Fin 57]"
proof -
  have n: "text40 \<noteq> []" by (simp add: text40_def)
  have l: "length text40 < 2 ^ 53" by (simp add: length_text40)
  from progress_monotone_percentages [OF n l translate_line10_13] n l translate_line10_13
  show ?thesis by simp
qed

text \<open>
  C6, as the spec states it, fails: with a source text of 40 code units and 23 code
  units of content the call reports 57, where
  \<open>round(min(100, 100 * 23/4 / (40/4)))\<close> is 58. The quotient \<open>23/40\<close> is rounded to
  binary64 before it is multiplied by 100, the product is rounded again, and the result
  is just below 57.5.
\<close>

theorem progress_formula_counterexample:
  "translate (envOf [line23]) text40 (js ''French'') None (Some alwaysReturns) None =
     Some \<lparr>outcome = Rejects (formatError (syntaxErrorMessage (js ''0123456789abcdefghijklm''))),
           progressValues = [Fin 57], streamValues = []\<rparr>
   \<and> length text40 = 40 \<and> length (chunkContent line23) = 23
   \<and> specProgress 40 23 = Fin 58"
  using translate_line23 length_text40 length_content23 specProgress_40_23 by blast

lemma fragments_Suc:
  "fragments rd (Suc n) = fragments rd n @ (if isChunk (rd n) then [chunkOf (rd n)] else [])"
  by (simp add: fragments_def)

lemma totals_append:
  "totals a (xs @ ys) = totals a xs @ totals (a + length (concat (map chunkContent xs))) ys"
  by (induction xs arbitrary: a) (simp_all add: add.assoc)

lemma progress_step:
  assumes "tokenCount st = Fin (of_nat a / 4)" and "a + length content < 2 ^ 53"
  shows "tokenCount (accumulate st content) = Fin (of_nat (a + length content) / 4)"
    and "progressCalls (reportProgress (Some f) est (accumulate st content)) =
           progressCalls st @ [progressOf (Fin (of_nat (a + length content) / 4)) est]"
  using add_quarters [OF assms(2)]
  by (simp_all add: reportProgress_def accumulate_def assms(1) lengthNum_def record_call_def)

lemma readLoop_reports:
  assumes "readLoop rd onProgress onStream est i st = Some y"
  shows "onProgress \<noteq> None \<longrightarrow>
     (\<forall>n. length (concat (map chunkContent (fragments rd n))) < 2 ^ 53) \<longrightarrow>
     (\<forall>j < i. isChunk (rd j) \<and> invoke onProgress j = None \<and> invoke onStream j = None) \<longrightarrow>
     tokenCount st = Fin (of_nat (length (concat (map chunkContent (fragments rd i)))) / 4) \<longrightarrow>
     progressCalls st =
       map (\<lambda>t. progressOf (Fin (of_nat t / 4)) est) (totals 0 (fragments rd i)) \<longrightarrow>
     (\<exists>k. lastRead rd onProgress onStream k
        \<and> progressCalls (snd (snd y)) =
            map (\<lambda>t. progressOf (Fin (of_nat t / 4)) est) (totals 0 (fragments rd (Suc k))))"
proof (rule readLoop.raw_induct
    [where P = "\<lambda>rd onProgress onStream est i st y.
       onProgress \<noteq> None \<longrightarrow>
       (\<forall>n. length (concat (map chunkContent (fragments rd n))) < 2 ^ 53) \<longrightarrow>
       (\<forall>j < i. isChunk (rd j) \<and> invoke onProgress j = None \<and> invoke onStream j = None) \<longrightarrow>
       tokenCount st = Fin (of_nat (length (concat (map chunkContent (fragments rd i)))) / 4) \<longrightarrow>
       progressCalls st =
         map (\<lambda>t. progressOf (Fin (of_nat t / 4)) est) (totals 0 (fragments rd i)) \<longrightarrow>
       (\<exists>k. lastRead rd onProgress onStream k
          \<and> progressCalls (snd (snd y)) =
              map (\<lambda>t. progressOf (Fin (of_nat t / 4)) est) (totals 0 (fragments rd (Suc k))))",
     OF _ assms], goal_cases)
  case (1 g rd onProgress onStream est i st y)
  note ih = "1"(1) and eq = "1"(2)
  show ?case
  proof (intro impI)
    assume cb: "onProgress \<noteq> None"
      and bound: "\<forall>n. length (concat (map chunkContent (fragments rd n))) < 2 ^ 53"
      and before: "\<forall>j < i. isChunk (rd j) \<and> invoke onProgress j = None \<and> invoke onStream j = None"
      and tc: "tokenCount st = Fin (of_nat (length (concat (map chunkContent (fragments rd i)))) / 4)"
      and pc: "progressCalls st =
         map (\<lambda>t. progressOf (Fin (of_nat t / 4)) est) (totals 0 (fragments rd i))"
    let ?a = "length (concat (map chunkContent (fragments rd i)))"
    let ?goal = "\<exists>k. lastRead rd onProgress onStream k
          \<and> progressCalls (snd (snd y)) =
              map (\<lambda>t. progressOf (Fin (of_nat t / 4)) est) (totals 0 (fragments rd (Suc k)))"
    obtain f where f: "onProgress = Some f" using cb by (cases onProgress) auto
    have stop: ?goal if "\<not> isChunk (rd i)" and "snd (snd y) = st"
    proof -
      have "lastRead rd onProgress onStream i"
        using before that(1) by (simp add: lastRead_def)
      moreover have "fragments rd (Suc i) = fragments rd i"
        using that(1) by (simp add: fragments_Suc)
      ultimately show ?thesis using pc that(2) by auto
    qed
    show ?goal
    proof (cases "rd i")
      case Done
      with eq have "snd (snd y) = st" by auto
      with Done stop show ?thesis by simp
    next
      case (ReadFails e)
      with eq have "snd (snd y) = st" by auto
      with ReadFails stop show ?thesis by simp
    next
      case (Chunk chunk)
      let ?c = "chunkContent chunk"
      let ?st1 = "reportProgress onProgress est (accumulate st ?c)"
      let ?st2 = "reportStream onStream ?st1"
      have fr: "fragments rd (Suc i) = fragments rd i @ [chunk]"
        using Chunk by (simp add: fragments_Suc)
      have "length (concat (map chunkContent (fragments rd (Suc i)))) < 2 ^ 53"
        using bound by blast
      then have b: "?a + length ?c < 2 ^ 53"
        by (simp add: fr)
      have tc1: "tokenCount ?st1 = Fin (of_nat (?a + length ?c) / 4)"
        using progress_step(1) [OF tc b] by (simp add: reportProgress_def)
      have pc1: "progressCalls ?st1 =
          map (\<lambda>t. progressOf (Fin (of_nat t / 4)) est) (totals 0 (fragments rd (Suc i)))"
        using progress_step(2) [OF tc b, of f est] by (simp add: f pc fr totals_append)
      have tc2: "tokenCount ?st2 = Fin (of_nat (?a + length ?c) / 4)"
        using tc1 by (simp add: reportStream_def)
      have pc2: "progressCalls ?st2 =
          map (\<lambda>t. progressOf (Fin (of_nat t / 4)) est) (totals 0 (fragments rd (Suc i)))"
        using pc1 by (simp add: reportStream_def)
      have throws: ?goal
        if "invoke onProgress i \<noteq> None \<or> invoke onStream i \<noteq> None"
          and "progressCalls (snd (snd y)) = progressCalls ?st1"
      proof -
        have "lastRead rd onProgress onStream i"
          using before that(1) by (simp add: lastRead_def)
        with pc1 that(2) show ?thesis by auto
      qed
      show ?thesis
      proof (cases "invoke onProgress i")
        case (Some e)
        with eq Chunk have "snd (snd y) = ?st1"
          by (auto simp: processChunk_def)
        with Some throws show ?thesis by simp
      next
        case None
        show ?thesis
        proof (cases "invoke onStream i")
          case (Some e)
          with eq Chunk None have "snd (snd y) = ?st2"
            by (auto simp: processChunk_def)
          then have "progressCalls (snd (snd y)) = progressCalls ?st1"
            by (simp add: reportStream_def)
          with Some throws show ?thesis by simp
        next
          case n: None
          with eq Chunk None have r: "g rd onProgress onStream est (Suc i) ?st2 = Some y"
            by (simp add: processChunk_def)
          have before': "\<forall>j < Suc i. isChunk (rd j) \<and> invoke onProgress j = None
              \<and> invoke onStream j = None"
            using before Chunk None n by (auto simp: less_Suc_eq)
          have tc': "tokenCount ?st2 =
              Fin (of_nat (length (concat (map chunkContent (fragments rd (Suc i))))) / 4)"
            using tc2 by (simp add: fr)
          from ih [OF r] cb bound before' tc' pc2 show ?thesis by blast
        qed
      qed
    qed
  qed
qed

lemma stream_None:
  assumes "stream env = None" and "translate env text targetLang sig onProgress onStream = Some res"
  shows "progressValues res = []"
  using assms
  by (auto simp: stream_def translate_def settle_def initialState_def
      split: if_splits fetch_result.splits option.splits)

lemma stream_Some:
  assumes "stream env = Some rd"
  shows "translate env text targetLang sig onProgress onStream =
           map_option (afterLoop sig)
             (readLoop rd onProgress onStream (estimated text) 0 initialState)"
proof -
  from assms have c: "configured env"
    by (auto simp: stream_def configured_def split: if_splits)
  from assms obtain r where "fetch env = FetchResponse r" "ok r" "body r = Some rd"
    by (auto simp: stream_def split: if_splits fetch_result.splits)
  with c show ?thesis by (simp add: translate_streaming)
qed

text \<open>
  C6, amended: in every call that settles, the values passed to \<open>onProgress\<close> are, one
  for each fragment received, \<open>min(round(fl(fl(t / l) * 100)), 100)\<close>, where \<open>t\<close> is
  the length of the content of the fragments received so far, \<open>l\<close> the length of the
  source text and \<open>fl\<close> rounds to the nearest binary64 value. The fragments received
  are those of the reads up to the last one, which ends the stream, rejects or gives a
  fragment at which a callback throws; a call that does not get to read the stream
  reports nothing. (Strings are shorter than \<open>2^53\<close>.)
\<close>

theorem progress_is_rounded_twice:
  assumes "translate env text targetLang sig (Some f) onStream = Some res"
    and "length text < 2 ^ 53"
    and "\<forall>rd n. stream env = Some rd \<longrightarrow>
           length (concat (map chunkContent (fragments rd n))) < 2 ^ 53"
  shows "case stream env of
           None \<Rightarrow> progressValues res = []
         | Some rd \<Rightarrow>
             (\<exists>k. lastRead rd (Some f) onStream k
                \<and> progressValues res =
                    map (codeProgress (length text)) (totals 0 (fragments rd (Suc k))))"
proof (cases "stream env")
  case None
  with stream_None [OF None assms(1)] show ?thesis by simp
next
  case (Some rd)
  from assms(1) obtain y
    where y: "readLoop rd (Some f) onStream (estimated text) 0 initialState = Some y"
      and res: "res = afterLoop sig y"
    unfolding stream_Some [OF Some] by auto
  have bound: "\<forall>n. length (concat (map chunkContent (fragments rd n))) < 2 ^ 53"
    using assms(3) Some by blast
  have "\<exists>k. lastRead rd (Some f) onStream k
        \<and> progressCalls (snd (snd y)) =
            map (\<lambda>t. progressOf (Fin (of_nat t / 4)) (estimated text))
              (totals 0 (fragments rd (Suc k)))"
    using readLoop_reports [OF y] bound
    by (simp add: initialState_def fragments_def)
  then obtain k where k: "lastRead rd (Some f) onStream k"
    and p: "progressCalls (snd (snd y)) =
            map (\<lambda>t. progressOf (Fin (of_nat t / 4)) (estimated text))
              (totals 0 (fragments rd (Suc k)))"
    by blast
  have "progressValues res = map (codeProgress (length text)) (totals 0 (fragments rd (Suc k)))"
    unfolding res progressValues_afterLoop p
    by (simp add: estimated_exact [OF assms(2)] progressOf_quarters)
  with k Some show ?thesis by auto
qed

lemma fragments_rdCut23: "fragments rdCut23 n = (if n = 0 then [] else [line23])"
proof (induction n)
  case 0
  show ?case by (simp add: fragments_def)
next
  case (Suc n)
  then show ?case by (simp add: fragments_Suc rdCut23_def)
qed

lemma stream_envCut23: "stream envCut23 = Some rdCut23"
  by (simp add: stream_def envCut23_def ok_def)

lemma translate_envCut23:
  "translate envCut23 text40 (js ''French'') None (Some alwaysReturns) None =
     Some \<lparr>outcome = Rejects (ErrorObj (js ''network error'')),
           progressValues = [Fin 57], streamValues = []\<rparr>"
proof -
  let ?st = "afterChunks (Some alwaysReturns) None (estimated text40) initialState [line23]"
  have p: "progressCalls ?st = [Fin 57]"
  proof (subst progress_envOf)
    show "text40 \<noteq> []" by (simp add: text40_def)
    show "length text40 < 2 ^ 53" by (simp add: length_text40)
    show "length (concat (map chunkContent [line23])) < 2 ^ 53" by (simp add: chunk_line23)
    show "map (codeProgress (length text40)) (totals 0 [line23]) = [Fin 57]"
      by (simp only: totals_line23 length_text40 list.map codeProgress_40_23)
  qed
  have s: "streamCalls ?st = []"
    by (simp add: reportStream_def reportProgress_def accumulate_def record_call_def
        initialState_def)
  have "readLoop rdCut23 (Some alwaysReturns) None (estimated text40) 0 initialState =
      readLoop rdCut23 (Some alwaysReturns) None (estimated text40) (Suc 0) ?st"
    by (subst readLoop_Chunk [of rdCut23 0 line23])
      (simp_all add: rdCut23_def invoke_def alwaysReturns_def)
  also have "\<dots> = Some (Some (ErrorObj (js ''network error'')), Suc (Suc 0), ?st)"
    by (rule readLoop_ReadFails) (simp add: rdCut23_def)
  finally have "translate envCut23 text40 (js ''French'') None (Some alwaysReturns) None =
      Some (settle (Rejects (ErrorObj (js ''network error''))) ?st)"
    unfolding stream_Some [OF stream_envCut23] by (simp add: catchHandler_def)
  then show ?thesis
    using p s by (simp add: settle_def)
qed

theorem progress_is_rounded_twice_witness:
  "translate envCut23 text40 (js ''French'') None (Some alwaysReturns) None =
     Some \<lparr>outcome = Rejects (ErrorObj (js ''network error'')),
           progressValues = [Fin 57], streamValues = []\<rparr>
   \<and> length text40 < 2 ^ 53
   \<and> stream envCut23 = Some rdCut23
   \<and> fragments rdCut23 2 = [line23]
   \<and> lastRead rdCut23 (Some alwaysReturns) None 1
   \<and> (\<exists>k. lastRead rdCut23 (Some alwaysReturns) None k
         \<and> [Fin 57] = map (codeProgress (length text40)) (totals 0 (fragments rdCut23 (Suc k))))"
proof -
  have l: "length text40 < 2 ^ 53" by (simp add: length_text40)
  have b: "\<forall>rd n. stream envCut23 = Some rd \<longrightarrow>
      length (concat (map chunkContent (fragments rd n))) < 2 ^ 53"
    by (simp add: stream_envCut23 fragments_rdCut23 chunk_line23)
  have f: "fragments rdCut23 2 = [line23]"
    by (simp add: fragments_rdCut23)
  have k: "lastRead rdCut23 (Some alwaysReturns) None 1"
    by (simp add: lastRead_def rdCut23_def invoke_def alwaysReturns_def)
  from progress_is_rounded_twice [OF translate_envCut23 l b]
  have "\<exists>k. lastRead rdCut23 (Some alwaysReturns) None k
         \<and> [Fin 57] = map (codeProgress (length text40)) (totals 0 (fragments rdCut23 (Suc k)))"
    by (simp add: stream_envCut23)
  with translate_envCut23 l stream_envCut23 f k show ?thesis by blast
qed

section \<open>Values written and read back\<close>

subsection \<open>Strings read back\<close>

lemma hexVal_hexDigit: "d < 16 \<Longrightarrow> hexVal (hexDigit d) = Some d"
proof -
  assume d: "d < 16"
  show ?thesis
  proof (cases "d < 10")
    case True
    have u: "unat (word_of_nat (48 + d) :: cu) = 48 + d"
      using True by (intro unat_cu) simp
    have le: "(0x30 :: cu) \<le> word_of_nat (48 + d)" "(word_of_nat (48 + d) :: cu) \<le> 0x39"
      using True u by (simp_all add: word_le_nat_alt del: of_nat_add)
    show ?thesis
      using True le u by (simp add: hexVal_def hexDigit_def del: of_nat_add)
  next
    case False
    have u: "unat (word_of_nat (87 + d) :: cu) = 87 + d"
      using d by (intro unat_cu) simp
    have le: "\<not> (word_of_nat (87 + d) :: cu) \<le> 0x39" "\<not> (word_of_nat (87 + d) :: cu) \<le> 0x46"
      "(0x61 :: cu) \<le> word_of_nat (87 + d)" "(word_of_nat (87 + d) :: cu) \<le> 0x66"
      using False d u by (simp_all add: word_le_nat_alt del: of_nat_add)
    show ?thesis
      using False le u by (simp add: hexVal_def hexDigit_def del: of_nat_add)
  qed
qed

lemma hex_decompose:
  fixes u :: nat
  shows "4096 * (u div 4096) + 256 * (u div 256 mod 16) + 16 * (u div 16 mod 16) + u mod 16 = u"
proof -
  have a: "u = 16 * (u div 16) + u mod 16" by simp
  have d1: "u div 16 div 16 = u div 256" by (simp add: div_mult2_eq [symmetric])
  have d2: "u div 256 div 16 = u div 4096" by (simp add: div_mult2_eq [symmetric])
  have "u div 16 = 16 * (u div 16 div 16) + u div 16 mod 16" by simp
  then have b: "u div 16 = 16 * (u div 256) + u div 16 mod 16" unfolding d1 .
  have "u div 256 = 16 * (u div 256 div 16) + u div 256 mod 16" by simp
  then have c: "u div 256 = 16 * (u div 4096) + u div 256 mod 16" unfolding d2 .
  from a b c show ?thesis by linarith
qed

lemma hex4_digits:
  "hex4 (hexDigit (unat c div 4096) # hexDigit (unat c div 256 mod 16)
         # hexDigit (unat c div 16 mod 16) # hexDigit (unat c mod 16) # rest) = Some c"
proof -
  define u where "u = unat c"
  have u16: "u < 65536" using unsigned_less [of c, where 'a = nat] by (simp add: u_def)
  have d1: "u div 4096 < 16" using u16 by (simp add: less_mult_imp_div_less)
  have h: "hexVal (hexDigit (u div 4096)) = Some (u div 4096)"
    "hexVal (hexDigit (u div 256 mod 16)) = Some (u div 256 mod 16)"
    "hexVal (hexDigit (u div 16 mod 16)) = Some (u div 16 mod 16)"
    "hexVal (hexDigit (u mod 16)) = Some (u mod 16)"
    using d1 by (simp_all add: hexVal_hexDigit)
  have "(word_of_nat (4096 * (u div 4096) + 256 * (u div 256 mod 16) + 16 * (u div 16 mod 16) + u mod 16) :: cu) = c"
    unfolding hex_decompose by (simp add: u_def)
  then show ?thesis
    unfolding u_def [symmetric] hex4.simps h by simp
qed

lemma lexString_unicodeEscape:
  "lexString (unicodeEscape c @ rest) = consChar c (lexString rest)"
  unfolding unicodeEscape_def by (simp add: hex4_digits del: hex4.simps)

lemma lowSurrogate_plain:
  "isLowSurrogate d \<Longrightarrow> d \<noteq> 0x22 \<and> d \<noteq> 0x5C \<and> \<not> d < 0x20"
  by (auto simp: isLowSurrogate_def word_le_nat_alt word_less_nat_alt)

lemma highSurrogate_plain:
  "isHighSurrogate d \<Longrightarrow> d \<noteq> 0x22 \<and> d \<noteq> 0x5C \<and> \<not> d < 0x20"
  by (auto simp: isHighSurrogate_def word_le_nat_alt word_less_nat_alt)

lemma lexString_plain:
  "c \<noteq> 0x22 \<Longrightarrow> c \<noteq> 0x5C \<Longrightarrow> \<not> c < 0x20 \<Longrightarrow>
   lexString (c # cs) = consChar c (lexString cs)"
  by simp

lemma lexString_short:
  "simpleEscape e = Some u \<Longrightarrow> e \<noteq> 0x75 \<Longrightarrow>
   lexString (0x5C # e # cs) = consChar u (lexString cs)"
  by simp

lemma lexString_quoteChars:
  "lexString (quoteChars s @ 0x22 # rest) = Some (s, rest)"
proof (induction s rule: quoteChars.induct)
  case 1
  show ?case by simp
next
  case (2 c cs)
  show ?case
  proof (cases "c = 0x08 \<or> c = 0x09 \<or> c = 0x0A \<or> c = 0x0C \<or> c = 0x0D \<or> c = 0x22 \<or> c = 0x5C")
    case True
    then consider "c = 0x08" | "c = 0x09" | "c = 0x0A" | "c = 0x0C" | "c = 0x0D" | "c = 0x22"
      | "c = 0x5C" by blast
    then show ?thesis
    proof cases
      case 1
      with "2.IH"(1) show ?thesis by (simp add: simpleEscape_def)
    next
      case 2
      with "2.IH"(2) show ?thesis by (simp add: simpleEscape_def)
    next
      case 3
      with "2.IH"(3) show ?thesis by (simp add: simpleEscape_def)
    next
      case 4
      with "2.IH"(4) show ?thesis by (simp add: simpleEscape_def)
    next
      case 5
      with "2.IH"(5) show ?thesis by (simp add: simpleEscape_def)
    next
      case 6
      with "2.IH"(6) show ?thesis by (simp add: simpleEscape_def)
    next
      case 7
      with "2.IH"(7) show ?thesis by (simp add: simpleEscape_def)
    qed
  next
    case False
    then have n: "c \<noteq> 0x08" "c \<noteq> 0x09" "c \<noteq> 0x0A" "c \<noteq> 0x0C" "c \<noteq> 0x0D" "c \<noteq> 0x22"
      "c \<noteq> 0x5C" by simp_all
    show ?thesis
    proof (cases "c < 0x20")
      case True
      have q: "quoteChars (c # cs) = unicodeEscape c @ quoteChars cs"
        using n True by simp
      show ?thesis
        unfolding q append_assoc lexString_unicodeEscape
        using "2.IH"(8) [OF n True] by simp
    next
      case nc: False
      show ?thesis
      proof (cases "isHighSurrogate c")
        case True
        show ?thesis
        proof (cases cs)
          case Nil
          have q: "quoteChars (c # cs) = unicodeEscape c"
            using n nc True Nil by simp
          show ?thesis
            unfolding q lexString_unicodeEscape by (simp add: Nil)
        next
          case (Cons d ds)
          show ?thesis
          proof (cases "isLowSurrogate d")
            case low: True
            have q: "quoteChars (c # cs) = c # d # quoteChars ds"
              using n nc True Cons low by simp
            from lowSurrogate_plain [OF low] have dp: "d \<noteq> 0x22" "d \<noteq> 0x5C" "\<not> d < 0x20"
              by simp_all
            have "lexString (c # d # quoteChars ds @ 0x22 # rest)
                    = consChar c (consChar d (lexString (quoteChars ds @ 0x22 # rest)))"
              unfolding lexString_plain [OF n(6,7) nc] lexString_plain [OF dp] by (rule refl)
            then show ?thesis
              unfolding q using "2.IH"(9) [OF n nc True Cons low] by (simp add: Cons)
          next
            case nlow: False
            have q: "quoteChars (c # cs) = unicodeEscape c @ quoteChars cs"
              using n nc True Cons nlow by simp
            show ?thesis
              unfolding q append_assoc lexString_unicodeEscape
              using "2.IH"(10) [OF n nc True Cons nlow] by simp
          qed
        qed
      next
        case nh: False
        show ?thesis
        proof (cases "isLowSurrogate c")
          case True
          have q: "quoteChars (c # cs) = unicodeEscape c @ quoteChars cs"
            using n nc nh True by simp
          show ?thesis
            unfolding q append_assoc lexString_unicodeEscape
            using "2.IH"(11) [OF n nc nh True] by simp
        next
          case nl: False
          have q: "quoteChars (c # cs) = c # quoteChars cs"
            using n nc nh nl by simp
          have "lexString (c # quoteChars cs @ 0x22 # rest)
                  = consChar c (lexString (quoteChars cs @ 0x22 # rest))"
            by (rule lexString_plain [OF n(6,7) nc])
          then show ?thesis
            unfolding q using "2.IH"(12) [OF n nc nh nl] by simp
        qed
      qed
    qed
  qed
qed

subsection \<open>Numbers read back\<close>

lemma digits_lt10: "d \<in> set (digits n) \<Longrightarrow> d < 10"
proof (induction n rule: digits.induct)
  case (1 n)
  show ?case
  proof (cases "n < 10")
    case True
    with "1.prems" show ?thesis by (subst (asm) digits.simps) simp
  next
    case False
    have e: "digits n = digits (n div 10) @ [n mod 10]"
      using False by (subst digits.simps) simp
    from "1.prems" have "d \<in> set (digits (n div 10)) \<or> d = n mod 10"
      unfolding e by auto
    with "1.IH" [OF False] show ?thesis by auto
  qed
qed

lemma digits_nonempty: "digits n \<noteq> []"
  by (subst digits.simps) simp

lemma hd_digits: "0 < n \<Longrightarrow> hd (digits n) \<noteq> 0"
proof (induction n rule: digits.induct)
  case (1 n)
  show ?case
  proof (cases "n < 10")
    case True
    with "1.prems" show ?thesis by (subst digits.simps) simp
  next
    case False
    then have "0 < n div 10" by simp
    with "1.IH" [OF False] have "hd (digits (n div 10)) \<noteq> 0" by simp
    then show ?thesis
      using False digits_nonempty [of "n div 10"] by (subst digits.simps) simp
  qed
qed

lemma val_append: "val (xs @ ys) = val xs * 10 ^ length ys + val ys"
  by (induction xs) (simp_all add: power_add algebra_simps)

lemma val_digits: "val (digits n) = n"
proof (induction n rule: digits.induct)
  case (1 n)
  show ?case
  proof (cases "n < 10")
    case True
    then show ?thesis by (subst digits.simps) simp
  next
    case False
    with "1.IH" [OF False] show ?thesis
      by (subst digits.simps) (simp add: val_append)
  qed
qed

lemma val_replicate0 [simp]: "val (replicate z 0) = 0"
  by (induction z) simp_all

lemma decVal_val:
  "\<forall>d \<in> set ds. d < 10 \<Longrightarrow> decVal acc (map digitChar ds) = acc * 10 ^ length ds + val ds"
  by (induction ds arbitrary: acc) (simp_all add: digitVal_digitChar algebra_simps)

lemma isDigit_digitChar: "d < 10 \<Longrightarrow> isDigit (digitChar d)"
  using unat_digitChar [of d] by (simp add: isDigit_def word_le_nat_alt)

lemma digitChar_eq_zero: "d < 10 \<Longrightarrow> digitChar d = 0x30 \<longleftrightarrow> d = 0"
  using unat_digitChar [of d] by (auto simp: digitChar_def dest: arg_cong [where f = unat])

lemma takeWhile_all: "\<forall>c \<in> set xs. P c \<Longrightarrow> takeWhile P (xs @ ys) = xs @ takeWhile P ys"
  by (induction xs) simp_all

lemma dropWhile_all: "\<forall>c \<in> set xs. P c \<Longrightarrow> dropWhile P (xs @ ys) = dropWhile P ys"
  by (induction xs) simp_all

lemma takeWhile_digits:
  assumes "\<forall>d \<in> set ds. d < 10" and "rest = [] \<or> \<not> isDigit (hd rest)"
  shows "takeWhile isDigit (map digitChar ds @ rest) = map digitChar ds"
    and "dropWhile isDigit (map digitChar ds @ rest) = rest"
proof -
  have a: "\<forall>c \<in> set (map digitChar ds). isDigit c"
    using assms(1) by (auto intro: isDigit_digitChar)
  have r: "takeWhile isDigit rest = []" "dropWhile isDigit rest = rest"
    using assms(2) by (cases rest; simp)+
  show "takeWhile isDigit (map digitChar ds @ rest) = map digitChar ds"
    unfolding takeWhile_all [OF a] r by simp
  show "dropWhile isDigit (map digitChar ds @ rest) = rest"
    unfolding dropWhile_all [OF a] r by simp
qed

text \<open>Stripping the trailing zeros of the digits of a positive number.\<close>

lemma stripZeros_decompose:
  "\<exists>z. ds = stripZeros ds @ replicate z 0"
proof -
  have "\<exists>z. xs = replicate z 0 @ dropWhile ((=) 0) xs" for xs :: "nat list"
  proof (induction xs)
    case Nil
    show ?case by simp
  next
    case (Cons x xs)
    then obtain z where z: "xs = replicate z 0 @ dropWhile ((=) 0) xs" by blast
    show ?case
    proof (cases "x = 0")
      case True
      have "x # xs = replicate (Suc z) 0 @ dropWhile ((=) 0) (x # xs)"
        using True z by simp
      then show ?thesis by blast
    next
      case False
      then have "x # xs = replicate 0 0 @ dropWhile ((=) 0) (x # xs)" by simp
      then show ?thesis by blast
    qed
  qed
  then obtain z where "rev ds = replicate z 0 @ dropWhile ((=) 0) (rev ds)" by blast
  then have "rev (rev ds) = rev (replicate z 0 @ dropWhile ((=) 0) (rev ds))" by simp
  then have "ds = stripZeros ds @ replicate z 0"
    by (simp add: stripZeros_def)
  then show ?thesis by blast
qed

lemma stripZeros_subset: "set (stripZeros ds) \<subseteq> set ds"
  by (auto simp: stripZeros_def dest: set_dropWhileD)

lemma stripZeros_hd:
  assumes "ds \<noteq> []" and "hd ds \<noteq> 0"
  shows "stripZeros ds \<noteq> []" and "hd (stripZeros ds) = hd ds"
proof -
  obtain z where z: "ds = stripZeros ds @ replicate z 0"
    using stripZeros_decompose by blast
  show ne: "stripZeros ds \<noteq> []"
  proof
    assume "stripZeros ds = []"
    with z have "ds = replicate z 0" by simp
    with assms show False by (cases z) simp_all
  qed
  from z ne show "hd (stripZeros ds) = hd ds"
    by (metis hd_append2)
qed

lemma pow10_powi: "pow10 e = 10 powi e"
  by (simp add: pow10_def power_int_def field_simps)

lemma pow10_pos [simp]: "0 < pow10 e"
  by (simp add: pow10_powi)

lemma pow10_ne0 [simp]: "pow10 e \<noteq> 0"
  using pow10_pos [of e] by (rule less_imp_neq [symmetric])

lemma pow10_add: "pow10 (a + b) = pow10 a * pow10 b"
  by (simp add: pow10_powi power_int_add)

lemma pow10_nat: "pow10 (int n) = 10 ^ n"
  by (simp add: pow10_def)

lemma pow10_0 [simp]: "pow10 0 = 1"
  by (simp add: pow10_def)

lemma numberValue_mkNumber:
  "numberValue neg ip fp ex =
     mkNumber neg (of_nat (decVal 0 (ip @ fp)) * pow10 (ex - int (length fp)))"
  by (simp add: numberValue_def mkNumber_def)

lemma lexUnsigned_parts:
  "lexInt cs = Some (ip, r1) \<Longrightarrow> lexFrac r1 = Some (fp, r2) \<Longrightarrow> lexExp r2 = Some (ex, r3) \<Longrightarrow>
   lexUnsigned neg cs =
     Some (mkNumber neg (of_nat (decVal 0 (ip @ fp)) * pow10 (ex - int (length fp))), r3)"
  by (simp add: lexUnsigned_def numberValue_mkNumber)

lemma lexInt_digits:
  assumes "ds \<noteq> []" and "\<forall>d \<in> set ds. d < 10" and "hd ds \<noteq> 0"
    and "r = [] \<or> \<not> isDigit (hd r)"
  shows "lexInt (map digitChar ds @ r) = Some (map digitChar ds, r)"
proof -
  obtain d ds' where ds: "ds = d # ds'" using assms(1) by (cases ds) auto
  have d: "d < 10" "d \<noteq> 0" using assms(2,3) ds by simp_all
  have c: "digitChar d \<noteq> 0x30" "isDigit (digitChar d)"
    using d by (simp_all add: digitChar_eq_zero isDigit_digitChar)
  have "lexInt (map digitChar ds @ r) =
          Some (takeWhile isDigit (map digitChar ds @ r), dropWhile isDigit (map digitChar ds @ r))"
    using c by (simp add: lexInt_def ds)
  then show ?thesis
    by (simp only: takeWhile_digits [OF assms(2,4)])
qed

lemma lexInt_zero: "lexInt (0x30 # r) = Some ([0x30], r)"
  by (simp add: lexInt_def)

lemma lexFrac_none: "r = [] \<or> hd r \<noteq> 0x2E \<Longrightarrow> lexFrac r = Some ([], r)"
  by (cases r) (auto simp: lexFrac_def)

lemma lexFrac_digits:
  assumes "fs \<noteq> []" and "\<forall>d \<in> set fs. d < 10" and "r = [] \<or> \<not> isDigit (hd r)"
  shows "lexFrac (0x2E # map digitChar fs @ r) = Some (map digitChar fs, r)"
  using assms(1) by (simp add: lexFrac_def takeWhile_digits [OF assms(2,3)])

lemma lexExp_none: "r = [] \<or> (hd r \<noteq> 0x65 \<and> hd r \<noteq> 0x45) \<Longrightarrow> lexExp r = Some (0, r)"
  by (cases r) (auto simp: lexExp_def)

lemma natString_digits:
  assumes "r = [] \<or> \<not> isDigit (hd r)"
  shows "takeWhile isDigit (natString m @ r) = natString m"
    and "dropWhile isDigit (natString m @ r) = r"
  unfolding natString_def
  using takeWhile_digits [OF _ assms, of "digits m"] digits_lt10 [of _ m] by auto

lemma natString_nonempty: "natString m \<noteq> []"
  by (simp add: natString_def digits_nonempty)

lemma hd_natString_digit: "isDigit (hd (natString m))"
proof -
  have "hd (digits m) \<in> set (digits m)" using digits_nonempty by simp
  then have "hd (digits m) < 10" by (rule digits_lt10)
  then show ?thesis
    using digits_nonempty [of m] by (simp add: natString_def hd_map isDigit_digitChar)
qed

lemma lexExp_signed:
  assumes "r = [] \<or> \<not> isDigit (hd r)"
  shows "lexExp (0x65 # signedExp e @ r) = Some (e, r)"
proof (cases "0 \<le> e")
  case True
  have "lexExp (0x65 # 0x2B # natString (nat \<bar>e\<bar>) @ r) = lexExpDigits False (natString (nat \<bar>e\<bar>) @ r)"
    by (simp add: lexExp_def)
  also have "\<dots> = Some (int (decVal 0 (natString (nat \<bar>e\<bar>))), r)"
    using natString_nonempty by (simp add: lexExpDigits_def natString_digits [OF assms])
  finally show ?thesis
    using True by (simp add: signedExp_def decVal_natString)
next
  case False
  have "lexExp (0x65 # 0x2D # natString (nat \<bar>e\<bar>) @ r) = lexExpDigits True (natString (nat \<bar>e\<bar>) @ r)"
    by (simp add: lexExp_def)
  also have "\<dots> = Some (- int (decVal 0 (natString (nat \<bar>e\<bar>))), r)"
    using natString_nonempty by (simp add: lexExpDigits_def natString_digits [OF assms])
  finally show ?thesis
    using False by (simp add: signedExp_def decVal_natString)
qed

lemma not_digit_marks [simp]: "\<not> isDigit 0x2E" "\<not> isDigit 0x65" "\<not> isDigit 0x45"
  by (simp_all add: isDigit_def)

lemma endsNumber_cases:
  assumes "endsNumber rest"
  shows "rest = [] \<or> \<not> isDigit (hd rest)" and "rest = [] \<or> hd rest \<noteq> 0x2E"
    and "rest = [] \<or> (hd rest \<noteq> 0x65 \<and> hd rest \<noteq> 0x45)"
  using assms by (auto simp: endsNumber_def)

lemma val_leading_zeros: "val (replicate z 0 @ ds) = val ds"
  by (simp add: val_append)

lemma val_trailing_zeros: "val (ds @ replicate z 0) = val ds * 10 ^ z"
  by (simp add: val_append)

lemma map_digitChar_replicate: "replicate z (digitChar 0) = map digitChar (replicate z 0)"
  by simp

lemma lexUnsigned_format:
  assumes ne: "ds \<noteq> []" and lt: "\<forall>d \<in> set ds. d < 10" and hd: "hd ds \<noteq> 0"
    and e: "endsNumber rest"
  shows "lexUnsigned neg (formatDigits ds n @ rest) =
           Some (mkNumber neg (of_nat (val ds) * pow10 (n - int (length ds))), rest)"
proof -
  let ?k = "int (length ds)"
  let ?cs = "map digitChar ds"
  note en = endsNumber_cases [OF e]
  consider (int) "?k \<le> n" "n \<le> 21"
    | (point) "\<not> (?k \<le> n \<and> n \<le> 21)" "0 < n" "n \<le> 21"
    | (small) "\<not> (?k \<le> n \<and> n \<le> 21)" "\<not> (0 < n \<and> n \<le> 21)" "- 6 < n" "n \<le> 0"
    | (exp1) "\<not> (?k \<le> n \<and> n \<le> 21)" "\<not> (0 < n \<and> n \<le> 21)" "\<not> (- 6 < n \<and> n \<le> 0)" "?k = 1"
    | (expn) "\<not> (?k \<le> n \<and> n \<le> 21)" "\<not> (0 < n \<and> n \<le> 21)" "\<not> (- 6 < n \<and> n \<le> 0)" "?k \<noteq> 1"
    by linarith
  then show ?thesis
  proof cases
    case int
    let ?z = "nat (n - ?k)"
    let ?ds = "ds @ replicate ?z 0"
    have f: "formatDigits ds n = map digitChar ?ds"
      using int by (simp add: formatDigits_def Let_def)
    have a: "?ds \<noteq> []" "\<forall>d \<in> set ?ds. d < 10" "hd ?ds \<noteq> 0"
      using ne lt hd by auto
    have "lexUnsigned neg (map digitChar ?ds @ rest) =
            Some (mkNumber neg (of_nat (decVal 0 (map digitChar ?ds @ [])) * pow10 (0 - int (length ([] :: jsstring)))), rest)"
      by (rule lexUnsigned_parts [OF lexInt_digits [OF a en(1)] lexFrac_none [OF en(2)]
            lexExp_none [OF en(3)]])
    moreover have "(of_nat (decVal 0 (map digitChar ?ds)) :: rat) = of_nat (val ds) * pow10 (n - ?k)"
    proof -
      have d: "decVal 0 (map digitChar ?ds) = val ?ds"
        using decVal_val [OF a(2), of 0] by simp
      have p: "pow10 (n - ?k) = 10 ^ ?z"
        using int pow10_nat [of ?z] by simp
      show ?thesis
        unfolding d p val_trailing_zeros by simp
    qed
    ultimately show ?thesis
      unfolding f by simp
  next
    case point
    then have nk: "n < ?k" by linarith
    let ?m = "nat n"
    let ?ip = "take ?m ds" and ?fp = "drop ?m ds"
    have pt: "0 < n \<and> n \<le> 21" using point by simp
    have f: "formatDigits ds n = map digitChar ?ip @ 0x2E # map digitChar ?fp"
      unfolding formatDigits_def Let_def if_not_P [OF point(1)] if_P [OF pt]
      by (simp add: take_map drop_map)
    have a: "?ip \<noteq> []" "\<forall>d \<in> set ?ip. d < 10" "hd ?ip \<noteq> 0"
      using ne lt hd point(2) by (auto dest: in_set_takeD)
    have "?m < length ds" using nk point(2) by linarith
    then have b: "?fp \<noteq> []" "\<forall>d \<in> set ?fp. d < 10"
      using lt by (auto dest: in_set_dropD)
    have dot: "0x2E # map digitChar ?fp @ rest = [] \<or> \<not> isDigit (hd (0x2E # map digitChar ?fp @ rest))"
      by simp
    have "lexUnsigned neg (map digitChar ?ip @ 0x2E # map digitChar ?fp @ rest) =
            Some (mkNumber neg (of_nat (decVal 0 (map digitChar ?ip @ map digitChar ?fp))
                    * pow10 (0 - int (length (map digitChar ?fp)))), rest)"
      by (rule lexUnsigned_parts [OF lexInt_digits [OF a dot] lexFrac_digits [OF b en(1)]
            lexExp_none [OF en(3)]])
    moreover have "map digitChar ?ip @ map digitChar ?fp = map digitChar ds"
      by (simp add: map_append [symmetric])
    moreover have "0 - int (length (map digitChar ?fp)) = n - ?k"
      using point(2) nk by simp
    ultimately show ?thesis
      unfolding f using point(2) by (simp add: decVal_val [OF lt])
  next
    case small
    let ?z = "nat (- n)"
    let ?fp = "replicate ?z 0 @ ds"
    have sm: "- 6 < n \<and> n \<le> 0" using small by simp
    have f: "formatDigits ds n = 0x30 # 0x2E # map digitChar ?fp"
      unfolding formatDigits_def Let_def if_not_P [OF small(1)] if_not_P [OF small(2)]
        if_P [OF sm]
      by simp
    have b: "?fp \<noteq> []" "\<forall>d \<in> set ?fp. d < 10"
      using ne lt by auto
    have "lexUnsigned neg (0x30 # 0x2E # map digitChar ?fp @ rest) =
            Some (mkNumber neg (of_nat (decVal 0 ([0x30] @ map digitChar ?fp))
                    * pow10 (0 - int (length (map digitChar ?fp)))), rest)"
      by (rule lexUnsigned_parts [OF lexInt_zero lexFrac_digits [OF b en(1)] lexExp_none [OF en(3)]])
    moreover have "decVal 0 ([0x30] @ map digitChar ?fp) = val ds"
    proof -
      have "[0x30] @ map digitChar ?fp = map digitChar (0 # ?fp)"
        by (simp add: digitChar_def)
      moreover have "\<forall>d \<in> set (0 # ?fp). d < 10" using b(2) by simp
      ultimately show ?thesis
        by (simp only: decVal_val) (simp add: val_leading_zeros)
    qed
    moreover have "0 - int (length (map digitChar ?fp)) = n - ?k"
      using small by simp
    ultimately show ?thesis
      unfolding f by simp
  next
    case exp1
    have f: "formatDigits ds n = ?cs @ 0x65 # signedExp (n - 1)"
      unfolding formatDigits_def Let_def if_not_P [OF exp1(1)] if_not_P [OF exp1(2)]
        if_not_P [OF exp1(3)] if_P [OF exp1(4)]
      by simp
    have ee: "0x65 # signedExp (n - 1) @ rest = [] \<or> \<not> isDigit (hd (0x65 # signedExp (n - 1) @ rest))"
      "0x65 # signedExp (n - 1) @ rest = [] \<or> hd (0x65 # signedExp (n - 1) @ rest) \<noteq> 0x2E"
      by simp_all
    have "lexUnsigned neg (?cs @ 0x65 # signedExp (n - 1) @ rest) =
            Some (mkNumber neg (of_nat (decVal 0 (?cs @ []))
                    * pow10 ((n - 1) - int (length ([] :: jsstring)))), rest)"
      by (rule lexUnsigned_parts [OF lexInt_digits [OF ne lt hd ee(1)] lexFrac_none [OF ee(2)]
            lexExp_signed [OF en(1)]])
    then show ?thesis
      unfolding f using exp1(4) by (simp add: decVal_val [OF lt])
  next
    case expn
    obtain d ds' where ds: "ds = d # ds'" using ne by (cases ds) auto
    have ds': "ds' \<noteq> []" using expn(4) ds by auto
    have f: "formatDigits ds n = map digitChar [d] @ 0x2E # map digitChar ds' @ 0x65 # signedExp (n - 1)"
      unfolding formatDigits_def Let_def if_not_P [OF expn(1)] if_not_P [OF expn(2)]
        if_not_P [OF expn(3)] if_not_P [OF expn(4)]
      by (simp add: ds)
    have a: "[d] \<noteq> []" "\<forall>x \<in> set [d]. x < 10" "hd [d] \<noteq> 0"
      using lt hd ds by simp_all
    have b: "\<forall>x \<in> set ds'. x < 10" using lt ds by simp
    let ?r1 = "0x2E # map digitChar ds' @ 0x65 # signedExp (n - 1) @ rest"
    let ?r2 = "0x65 # signedExp (n - 1) @ rest"
    have dot: "?r1 = [] \<or> \<not> isDigit (hd ?r1)" by simp
    have ee: "?r2 = [] \<or> \<not> isDigit (hd ?r2)" by simp
    have A: "lexUnsigned neg (map digitChar [d] @ ?r1) =
            Some (mkNumber neg (of_nat (decVal 0 (map digitChar [d] @ map digitChar ds'))
                    * pow10 ((n - 1) - int (length (map digitChar ds')))), rest)"
      by (rule lexUnsigned_parts [OF lexInt_digits [OF a dot] lexFrac_digits [OF ds' b ee]
            lexExp_signed [OF en(1)]])
    have B: "map digitChar [d] @ map digitChar ds' = map digitChar ds"
      by (simp add: ds)
    have C: "(n - 1) - int (length (map digitChar ds')) = n - ?k"
      by (simp add: ds)
    have D: "decVal 0 (map digitChar ds) = val ds"
      using decVal_val [OF lt, of 0] by simp
    show ?thesis
      unfolding f using A [unfolded B C D] by simp
  qed
qed

lemma posB64_multiple:
  assumes "posB64 q" and "N = (1074 :: nat)"
  shows "\<exists>m. q = of_int m / 2 ^ N"
proof -
  define e where "e = max (floor_log2 q - 52) (- 1074)"
  define m where "m = round_half_even (q / pow2 e)"
  have "round_pos q = Fin q" using assms by (simp add: posB64_def)
  then have q: "q = of_int m * pow2 e"
    by (auto simp: round_pos_def Let_def e_def m_def split: if_splits)
  have e: "0 \<le> e + int N" by (simp add: e_def assms(2))
  have "pow2 e = pow2 (int (nat (e + int N)) + (- int N))" using e by simp
  also have "\<dots> = 2 ^ nat (e + int N) * pow2 (- int N)"
    by (simp only: pow2_add) (simp add: pow2_def)
  also have "pow2 (- int N) = 1 / 2 ^ N"
    by (simp add: pow2_def)
  finally have "q = of_int (m * 2 ^ nat (e + int N)) / 2 ^ N"
    by (simp add: q)
  then show ?thesis by blast
qed

lemma pow10_split: "(10 :: rat) ^ j = 2 ^ j * 5 ^ j"
  by (simp add: power_mult_distrib [symmetric])

lemma exact_candidate:
  assumes "posB64 q" and "nx + 1074 \<le> int k"
  shows "candidates q nx k \<noteq> []"
proof -
  define N :: nat where "N = 1074"
  obtain m where m: "q = of_int m / 2 ^ N"
    using posB64_multiple [OF assms(1) N_def] by blast
  define j where "j = nat (int k - nx)"
  have j: "N \<le> j" "nx - int k = - int j" using assms(2) by (simp_all add: j_def N_def)
  define u where "u = pow10 (nx - int k)"
  have u: "u = 1 / 10 ^ j"
    unfolding u_def j(2) by (simp add: pow10_def)
  define c where "c = m * 2 ^ (j - N) * 5 ^ j"
  have "(2::rat) ^ j = 2 ^ (j - N) * 2 ^ N"
    using j(1) by (simp add: power_add [symmetric])
  then have qu: "q / u = of_int c"
    by (simp add: m u c_def pow10_split)
  then have lo: "\<lfloor>q / u\<rfloor> = c" and hi: "\<lceil>q / u\<rceil> = c" by simp_all
  have "u \<noteq> 0" by (simp add: u)
  with qu have cu: "of_int c * u = q"
    by (simp add: field_simps)
  have "b64 q = Fin q"
    using assms(1) by (simp add: posB64_def b64_def)
  then have r: "roundsTo q u c"
    by (simp add: roundsTo_def cu)
  show ?thesis
    unfolding candidates_def Let_def u_def [symmetric] lo hi
    using r by simp
qed

lemma candidates_valid:
  assumes "posB64 q" and "c \<in> set (candidates q nx k)"
  shows "0 < c \<and> b64 (of_int c * pow10 (nx - int k)) = Fin q"
proof -
  define u where "u = pow10 (nx - int k)"
  have q: "0 < q" using assms(1) by (simp add: posB64_def)
  have upos: "0 < u" by (simp add: u_def)
  from assms(2) have r: "roundsTo q u c" and c: "c = \<lfloor>q / u\<rfloor> \<or> c = \<lceil>q / u\<rceil>"
    unfolding candidates_def Let_def u_def [symmetric] by (auto split: if_splits)
  have "0 \<le> q / u" using q upos by simp
  then have "0 \<le> \<lfloor>q / u\<rfloor>" "0 \<le> \<lceil>q / u\<rceil>"
    by (simp_all add: le_ceiling_iff)
  with c have c0: "0 \<le> c" by auto
  have "c \<noteq> 0"
  proof
    assume "c = 0"
    with r have "b64 0 = Fin q" by (simp add: roundsTo_def)
    with q show False by (simp add: b64_def)
  qed
  with c0 r show ?thesis by (simp add: roundsTo_def u_def)
qed

lemma shortest_valid:
  shows "shortest q nx k = (s, e) \<Longrightarrow> posB64 q \<Longrightarrow>
         0 < s \<and> b64 (of_int s * pow10 e) = Fin q"
proof (induction q nx k rule: shortest.induct)
  case (1 x nx k)
  show ?case
  proof (cases "candidates x nx k")
    case (Cons c cs)
    with "1.prems"(1) have "s = c" "e = nx - int k"
      by (subst (asm) shortest.simps; simp)+
    moreover have "c \<in> set (candidates x nx k)" using Cons by simp
    ultimately show ?thesis
      using candidates_valid [OF "1.prems"(2)] by simp
  next
    case Nil
    with exact_candidate [OF "1.prems"(2), of nx k] have far: "\<not> nx + 1074 \<le> int k"
      by auto
    with "1.prems"(1) Nil have "shortest x nx (Suc k) = (s, e)"
      by (subst (asm) shortest.simps) simp
    from "1.IH" [OF Nil far this "1.prems"(2)] show ?thesis .
  qed
qed

lemma lexUnsigned_posToString:
  assumes "posB64 q" and "endsNumber rest"
  shows "lexUnsigned neg (posToString q @ rest) = Some (if neg then Fin (- q) else Fin q, rest)"
proof -
  obtain s e where se: "shortest q (dec_exp q) 1 = (s, e)"
    by (cases "shortest q (dec_exp q) 1")
  from shortest_valid [OF se assms(1)] have s: "0 < s" and v: "b64 (of_int s * pow10 e) = Fin q"
    by simp_all
  define full where "full = digits (nat s)"
  define ds where "ds = stripZeros full"
  have sp: "0 < nat s" using s by simp
  have f1: "full \<noteq> []" "hd full \<noteq> 0" "\<forall>d \<in> set full. d < 10"
    using digits_nonempty hd_digits [OF sp] digits_lt10 by (auto simp: full_def)
  have d1: "ds \<noteq> []" "hd ds \<noteq> 0"
    using stripZeros_hd [OF f1(1,2)] f1(2) by (simp_all add: ds_def)
  have d2: "\<forall>d \<in> set ds. d < 10"
    using f1(3) stripZeros_subset [of full] by (auto simp: ds_def)
  obtain z where z: "full = ds @ replicate z 0"
    using stripZeros_decompose [of full] by (auto simp: ds_def)
  have "val full = nat s" by (simp add: full_def val_digits)
  then have vs: "val ds * 10 ^ z = nat s"
    by (simp add: z val_trailing_zeros)
  have len: "int (length full) = int (length ds) + int z"
    by (simp add: z)
  have p: "posToString q = formatDigits ds (e + int (length full))"
    unfolding posToString_def se by (simp add: full_def ds_def)
  have "(of_nat (val ds) :: rat) * pow10 (e + int (length full) - int (length ds))
          = of_nat (val ds) * (pow10 (int z) * pow10 e)"
    by (simp add: len pow10_add [symmetric] add.commute)
  also have "\<dots> = of_nat (val ds * 10 ^ z) * pow10 e"
    by (simp add: pow10_nat)
  also have "\<dots> = of_int s * pow10 e"
    using s by (simp only: vs) simp
  finally have val: "(of_nat (val ds) :: rat) * pow10 (e + int (length full) - int (length ds))
          = of_int s * pow10 e" .
  have nz: "of_int s * pow10 e \<noteq> (0::rat)" using s by simp
  have q0: "q \<noteq> 0" using assms(1) by (simp add: posB64_def)
  show ?thesis
    unfolding p lexUnsigned_format [OF d1(1) d2 d1(2) assms(2)] val
    using nz v q0 by (simp add: mkNumber_def)
qed

lemma lexNumber_unsigned: "lexUnsigned False cs = Some r \<Longrightarrow> lexNumber cs = Some r"
  by (cases cs) (auto simp: lexNumber_def lexUnsigned_def lexInt_def isDigit_def)

lemma lexNumber_minus: "lexNumber (0x2D # cs) = lexUnsigned True cs"
  by (simp add: lexNumber_def)

lemma lexNumber_zero:
  assumes "endsNumber rest"
  shows "lexNumber (0x30 # rest) = Some (Fin 0, rest)"
proof -
  note en = endsNumber_cases [OF assms]
  have "lexUnsigned False (0x30 # rest) =
          Some (mkNumber False (of_nat (decVal 0 ([0x30] @ [])) * pow10 (0 - int (length ([] :: jsstring)))), rest)"
    by (rule lexUnsigned_parts [OF lexInt_zero lexFrac_none [OF en(2)] lexExp_none [OF en(3)]])
  then have "lexUnsigned False (0x30 # rest) = Some (Fin 0, rest)"
    by (simp add: mkNumber_def zeroOf_def digitVal_def)
  then show ?thesis by (rule lexNumber_unsigned)
qed

lemma lexNumber_toString:
  assumes "finiteB64 n" and "endsNumber rest"
  shows "lexNumber (Number_toString n @ rest) = Some (n, rest)"
proof -
  obtain x where n: "n = Fin x" using assms(1) by (cases n) simp_all
  consider (zero) "x = 0" | (pos) "0 < x" | (neg) "x < 0" by linarith
  then show ?thesis
  proof cases
    case zero
    then show ?thesis
      using lexNumber_zero [OF assms(2)] by (simp add: n)
  next
    case pos
    with assms(1) n have "posB64 x" by simp
    from lexUnsigned_posToString [OF this assms(2), of False]
    have "lexNumber (posToString x @ rest) = Some (Fin x, rest)"
      by (intro lexNumber_unsigned) simp
    with pos show ?thesis by (simp add: n)
  next
    case neg
    with assms(1) n have "posB64 (- x)" by simp
    from lexUnsigned_posToString [OF this assms(2), of True]
    have "lexNumber (0x2D # posToString (- x) @ rest) = Some (Fin x, rest)"
      by (simp add: lexNumber_minus)
    with neg show ?thesis by (simp add: n)
  qed
qed

subsection \<open>The tokens of a serialized value\<close>

lemma consTok_consToks: "consTok t r = consToks [t] r"
  by (cases r) simp_all

lemma consToks_append: "consToks (a @ b) r = consToks a (consToks b r)"
  by (cases r) simp_all

lemma consToks_Cons: "consToks (t # ts) r = consTok t (consToks ts r)"
  by (cases r) simp_all

lemma consToks_Nil [simp]: "consToks [] r = r"
  by (cases r) simp_all

lemma endsValue_endsNumber: "endsValue rest \<Longrightarrow> endsNumber rest"
  by (auto simp: endsValue_def endsNumber_def isDigit_def)

lemma tokenize_spaces:
  "\<forall>c \<in> set ws. isJsonSpace c \<Longrightarrow> tokenize (ws @ cs) = tokenize cs"
  by (induction ws) simp_all

lemma tokenize_LF: "tokenize (LF # cs) = tokenize cs"
  by (simp add: LF_def isJsonSpace_def)

lemma tokenize_string:
  "tokenize (QuoteJSONString s @ rest) = consTok (TString s) (tokenize rest)"
  by (simp add: QuoteJSONString_def isJsonSpace_def isDigit_def lexString_quoteChars)

lemma tokenize_null: "tokenize (js ''null'' @ rest) = consTok TNull (tokenize rest)"
  by (simp add: isJsonSpace_def isDigit_def startsWith_def)

lemma tokenize_true: "tokenize (js ''true'' @ rest) = consTok TTrue (tokenize rest)"
  by (simp add: isJsonSpace_def isDigit_def startsWith_def)

lemma tokenize_false: "tokenize (js ''false'' @ rest) = consTok TFalse (tokenize rest)"
  by (simp add: isJsonSpace_def isDigit_def startsWith_def)

lemma digit_not_special:
  assumes "c = 0x2D \<or> isDigit c"
  shows "\<not> isJsonSpace c" "c \<noteq> 0x7B" "c \<noteq> 0x7D" "c \<noteq> 0x5B" "c \<noteq> 0x5D" "c \<noteq> 0x2C" "c \<noteq> 0x3A"
    "c \<noteq> 0x22"
  using assms by (auto simp: isDigit_def isJsonSpace_def word_le_nat_alt)

lemma lexNumber_first:
  assumes "lexNumber cs = Some r"
  shows "\<exists>c cs'. cs = c # cs' \<and> (c = 0x2D \<or> isDigit c)"
proof (cases cs)
  case Nil
  with assms show ?thesis by (simp add: lexNumber_def)
next
  case (Cons c cs')
  show ?thesis
  proof (cases "c = 0x2D")
    case True
    with Cons show ?thesis by simp
  next
    case False
    with assms Cons have "lexInt (c # cs') \<noteq> None"
      by (auto simp: lexNumber_def lexUnsigned_def split: option.splits)
    then have "c = 0x30 \<or> isDigit c"
      by (auto simp: lexInt_def split: if_splits)
    then have "isDigit c" by (auto simp: isDigit_def)
    with Cons show ?thesis by simp
  qed
qed

lemma tokenize_number:
  assumes "lexNumber cs = Some (n, rest)"
  shows "tokenize cs = consTok (TNumber n) (tokenize rest)"
proof -
  obtain c cs' where cs: "cs = c # cs'" and c: "c = 0x2D \<or> isDigit c"
    using lexNumber_first [OF assms] by blast
  note d = digit_not_special [OF c]
  show ?thesis
    unfolding cs using d c assms [unfolded cs] by (simp del: isDigit_def)
qed

lemma isIndent_gap: "isIndent ind \<Longrightarrow> isIndent (ind @ gap)"
  by (auto simp: isIndent_def gap_def)

lemma isIndent_Nil: "isIndent []"
  by (simp add: isIndent_def)

lemma tokenize_indent: "isIndent ind \<Longrightarrow> tokenize (ind @ cs) = tokenize cs"
  by (rule tokenize_spaces) (simp add: isIndent_def isJsonSpace_def)

lemma tokenize_gap: "tokenize (gap @ cs) = tokenize cs"
  by (rule tokenize_spaces) (simp add: gap_def isJsonSpace_def)

lemma tokenize_newline:
  "isIndent ind \<Longrightarrow> tokenize (LF # ind @ cs) = tokenize cs"
  by (simp only: tokenize_LF tokenize_indent)

lemma tokenize_punct:
  "tokenize (0x7B # cs) = consTok TLBrace (tokenize cs)"
  "tokenize (0x7D # cs) = consTok TRBrace (tokenize cs)"
  "tokenize (0x5B # cs) = consTok TLBracket (tokenize cs)"
  "tokenize (0x5D # cs) = consTok TRBracket (tokenize cs)"
  "tokenize (0x2C # cs) = consTok TComma (tokenize cs)"
  "tokenize (0x3A # cs) = consTok TColon (tokenize cs)"
  "tokenize (0x20 # cs) = tokenize cs"
  by (simp_all add: isJsonSpace_def)

lemma tokenize_JNum:
  assumes "isNumber n" and "endsValue rest"
  shows "tokenize (serialize ind (JNum n) @ rest) = consToks (tokensOf (JNum n)) (tokenize rest)"
proof -
  note en = endsValue_endsNumber [OF assms(2)]
  show ?thesis
  proof (cases n)
    case (Fin x)
    with assms(1) have "finiteB64 n" by simp
    from lexNumber_toString [OF this en] have "tokenize (Number_toString n @ rest) =
        consTok (TNumber n) (tokenize rest)"
      by (rule tokenize_number)
    with Fin show ?thesis by (simp add: consTok_consToks)
  next
    case NegZero
    have "tokenize (0x30 # rest) = consTok (TNumber (Fin 0)) (tokenize rest)"
      using lexNumber_zero [OF en] by (rule tokenize_number)
    with NegZero show ?thesis by (simp add: consTok_consToks)
  qed (simp_all add: tokenize_null [simplified] consTok_consToks)
qed

lemma endsValue_simps:
  "endsValue []" "endsValue (0x2C # cs)" "endsValue (LF # cs)"
  by (simp_all add: endsValue_def LF_def)

lemma tokenize_serialize_all:
  "isIndent ind \<longrightarrow> wfValue v \<longrightarrow>
     (\<forall>rest. endsValue rest \<longrightarrow>
        tokenize (serialize ind v @ rest) = consToks (tokensOf v) (tokenize rest))"
  "isIndent ind \<longrightarrow> wfElements es \<longrightarrow>
     (\<forall>rest. endsValue rest \<longrightarrow>
        tokenize (serializeElements ind es @ rest) = consToks (elementTokens es) (tokenize rest))"
  "isIndent ind \<longrightarrow> wfMembers ms \<longrightarrow>
     (\<forall>rest. endsValue rest \<longrightarrow>
        tokenize (serializeMembers ind ms @ rest) = consToks (memberTokens ms) (tokenize rest))"
proof (induction ind v and ind es and ind ms
    rule: serialize_serializeElements_serializeMembers.induct)
  case (1 ind)
  show ?case
    using tokenize_null by (simp add: consTok_consToks)
next
  case (2 ind b)
  show ?case
    using tokenize_true tokenize_false by (simp add: consTok_consToks)
next
  case (3 ind n)
  show ?case
    using tokenize_JNum [of n _ ind] by (simp del: serialize.simps tokensOf.simps)
next
  case (4 ind s)
  show ?case
    by (simp add: tokenize_string consTok_consToks)
next
  case (5 ind es)
  show ?case
  proof (intro impI allI)
    fix rest
    assume i: "isIndent ind" and ok: "wfValue (JArr es)" and r: "endsValue rest"
    show "tokenize (serialize ind (JArr es) @ rest) = consToks (tokensOf (JArr es)) (tokenize rest)"
    proof (cases "es = []")
      case True
      then show ?thesis
        by (simp add: consToks_Cons isJsonSpace_def)
    next
      case False
      from ok have eo: "wfElements es" by simp
      have ih: "tokenize (serializeElements (ind @ gap) es @ (LF # ind @ 0x5D # rest)) =
          consToks (elementTokens es) (tokenize (LF # ind @ 0x5D # rest))"
        using 5 [OF False] isIndent_gap [OF i] eo endsValue_simps(3) by blast
      have "serialize ind (JArr es) @ rest =
          0x5B # LF # ind @ gap @ serializeElements (ind @ gap) es @ LF # ind @ 0x5D # rest"
        using False by simp
      then have "tokenize (serialize ind (JArr es) @ rest) =
          consTok TLBracket (tokenize (LF # ind @ gap @ serializeElements (ind @ gap) es
             @ LF # ind @ 0x5D # rest))"
        by (simp only: tokenize_punct)
      also have "tokenize (LF # ind @ gap @ serializeElements (ind @ gap) es
             @ LF # ind @ 0x5D # rest)
          = tokenize (serializeElements (ind @ gap) es @ (LF # ind @ 0x5D # rest))"
        by (simp only: tokenize_newline [OF i] tokenize_gap)
      also note ih
      also have "tokenize (LF # ind @ 0x5D # rest) = consTok TRBracket (tokenize rest)"
        by (simp only: tokenize_newline [OF i] tokenize_punct)
      finally show ?thesis
        by (simp add: consToks_Cons consToks_append)
    qed
  qed
next
  case (6 ind ms)
  show ?case
  proof (intro impI allI)
    fix rest
    assume i: "isIndent ind" and ok: "wfValue (JObj ms)" and r: "endsValue rest"
    show "tokenize (serialize ind (JObj ms) @ rest) = consToks (tokensOf (JObj ms)) (tokenize rest)"
    proof (cases "ms = []")
      case True
      then show ?thesis
        by (simp add: consToks_Cons isJsonSpace_def)
    next
      case False
      from ok have eo: "wfMembers ms" by simp
      have ih: "tokenize (serializeMembers (ind @ gap) ms @ (LF # ind @ 0x7D # rest)) =
          consToks (memberTokens ms) (tokenize (LF # ind @ 0x7D # rest))"
        using 6 [OF False] isIndent_gap [OF i] eo endsValue_simps(3) by blast
      have "serialize ind (JObj ms) @ rest =
          0x7B # LF # ind @ gap @ serializeMembers (ind @ gap) ms @ LF # ind @ 0x7D # rest"
        using False by simp
      then have "tokenize (serialize ind (JObj ms) @ rest) =
          consTok TLBrace (tokenize (LF # ind @ gap @ serializeMembers (ind @ gap) ms
             @ LF # ind @ 0x7D # rest))"
        by (simp only: tokenize_punct)
      also have "tokenize (LF # ind @ gap @ serializeMembers (ind @ gap) ms
             @ LF # ind @ 0x7D # rest)
          = tokenize (serializeMembers (ind @ gap) ms @ (LF # ind @ 0x7D # rest))"
        by (simp only: tokenize_newline [OF i] tokenize_gap)
      also note ih
      also have "tokenize (LF # ind @ 0x7D # rest) = consTok TRBrace (tokenize rest)"
        by (simp only: tokenize_newline [OF i] tokenize_punct)
      finally show ?thesis
        by (simp add: consToks_Cons consToks_append)
    qed
  qed
next
  case (7 ind)
  show ?case by simp
next
  case (8 ind v vs)
  show ?case
  proof (intro impI allI)
    fix rest
    assume i: "isIndent ind" and ok: "wfElements (v # vs)" and r: "endsValue rest"
    from ok have okv: "wfValue v" and okvs: "wfElements vs" by simp_all
    show "tokenize (serializeElements ind (v # vs) @ rest) =
        consToks (elementTokens (v # vs)) (tokenize rest)"
    proof (cases "vs = []")
      case True
      have "tokenize (serialize ind v @ rest) = consToks (tokensOf v) (tokenize rest)"
        using 8(1) [OF True] i okv r by blast
      with True show ?thesis by simp
    next
      case False
      have a: "tokenize (serialize ind v @ (0x2C # LF # ind @ serializeElements ind vs @ rest)) =
          consToks (tokensOf v) (tokenize (0x2C # LF # ind @ serializeElements ind vs @ rest))"
        using 8(2) [OF False] i okv endsValue_simps(2) by blast
      have b: "tokenize (serializeElements ind vs @ rest) =
          consToks (elementTokens vs) (tokenize rest)"
        using 8(3) [OF False] i okvs r by blast
      have c: "tokenize (0x2C # LF # ind @ serializeElements ind vs @ rest) =
          consTok TComma (tokenize (serializeElements ind vs @ rest))"
        by (simp only: tokenize_punct tokenize_newline [OF i])
      have "serializeElements ind (v # vs) @ rest =
          serialize ind v @ (0x2C # LF # ind @ serializeElements ind vs @ rest)"
        using False by simp
      then have "tokenize (serializeElements ind (v # vs) @ rest) =
          tokenize (serialize ind v @ (0x2C # LF # ind @ serializeElements ind vs @ rest))"
        by (rule arg_cong)
      also note a
      also note c
      also note b
      finally show ?thesis
        using False by (simp add: consToks_Cons consToks_append)
    qed
  qed
next
  case (9 ind)
  show ?case by simp
next
  case (10 ind k v ms)
  show ?case
  proof (intro impI allI)
    fix rest
    assume i: "isIndent ind" and ok: "wfMembers ((k, v) # ms)" and r: "endsValue rest"
    from ok have okv: "wfValue v" and okms: "wfMembers ms" by simp_all
    have key: "tokenize (QuoteJSONString k @ 0x3A # 0x20 # cs) =
        consToks [TString k, TColon] (tokenize cs)" for cs
      by (simp only: tokenize_string tokenize_punct) (simp add: consToks_Cons)
    show "tokenize (serializeMembers ind ((k, v) # ms) @ rest) =
        consToks (memberTokens ((k, v) # ms)) (tokenize rest)"
    proof (cases "ms = []")
      case True
      have a: "tokenize (serialize ind v @ rest) = consToks (tokensOf v) (tokenize rest)"
        using 10(1) [OF True] i okv r by blast
      have "serializeMembers ind ((k, v) # ms) @ rest =
          QuoteJSONString k @ 0x3A # 0x20 # serialize ind v @ rest"
        using True by simp
      then have "tokenize (serializeMembers ind ((k, v) # ms) @ rest) =
          tokenize (QuoteJSONString k @ 0x3A # 0x20 # serialize ind v @ rest)"
        by (rule arg_cong)
      also note key
      also note a
      finally show ?thesis
        using True by (simp add: consToks_Cons consToks_append)
    next
      case False
      have a: "tokenize (serialize ind v @ (0x2C # LF # ind @ serializeMembers ind ms @ rest)) =
          consToks (tokensOf v) (tokenize (0x2C # LF # ind @ serializeMembers ind ms @ rest))"
        using 10(2) [OF False] i okv endsValue_simps(2) by blast
      have b: "tokenize (serializeMembers ind ms @ rest) =
          consToks (memberTokens ms) (tokenize rest)"
        using 10(3) [OF False] i okms r by blast
      have c: "tokenize (0x2C # LF # ind @ serializeMembers ind ms @ rest) =
          consTok TComma (tokenize (serializeMembers ind ms @ rest))"
        by (simp only: tokenize_punct tokenize_newline [OF i])
      have "serializeMembers ind ((k, v) # ms) @ rest =
          QuoteJSONString k @ 0x3A # 0x20 #
            serialize ind v @ (0x2C # LF # ind @ serializeMembers ind ms @ rest)"
        using False by simp
      then have "tokenize (serializeMembers ind ((k, v) # ms) @ rest) =
          tokenize (QuoteJSONString k @ 0x3A # 0x20 #
            serialize ind v @ (0x2C # LF # ind @ serializeMembers ind ms @ rest))"
        by (rule arg_cong)
      also note key
      also note a
      also note c
      also note b
      finally show ?thesis
        using False by (simp add: consToks_Cons consToks_append)
    qed
  qed
qed

lemma tokenize_stringify:
  assumes "wfValue v"
  shows "tokenize (JSON_stringify2 v) = Some (tokensOf v)"
proof -
  have "tokenize (serialize [] v @ []) = consToks (tokensOf v) (tokenize [])"
    using tokenize_serialize_all(1) [of "[]" v] assms isIndent_Nil endsValue_simps(1) by blast
  then show ?thesis
    by (simp add: JSON_stringify2_def)
qed

subsection \<open>Parsing the tokens of a value\<close>

lemma parseTokens_Cons: "parseTokens m st (t # ts) = resume (step m st t) ts"
  by (cases "step m st t") auto

lemma resume_case [simp]:
  "(case r of None \<Rightarrow> None | Some (m', st') \<Rightarrow> parseTokens m' st' ts) = resume r ts"
  by (cases r) auto

lemma insertIndex_last:
  assumes "\<forall>k' \<in> set (map fst ms). isArrayIndex k' \<and> decVal 0 k' < decVal 0 k"
  shows "insertIndex k v ms = ms @ [(k, v)]"
  using assms by (induction ms) auto

lemma objSet_last:
  assumes "keysOK (map fst ms @ [k])"
  shows "objSet ms k v = ms @ [(k, v)]"
proof -
  from assms have new: "k \<notin> set (map fst ms)" and b: "\<forall>k' \<in> set (map fst ms). keyBefore k' k"
    by (auto simp: keysOK_def sorted_wrt_append)
  from new have none: "map_of ms k = None"
    by (simp add: map_of_eq_None_iff)
  show ?thesis
  proof (cases "isArrayIndex k")
    case True
    with b have "\<forall>k' \<in> set (map fst ms). isArrayIndex k' \<and> decVal 0 k' < decVal 0 k"
      by (simp add: keyBefore_def)
    from insertIndex_last [OF this] True none show ?thesis
      by (simp add: objSet_def objInsert_def)
  next
    case False
    with none show ?thesis by (simp add: objSet_def objInsert_def)
  qed
qed

lemma keysOK_prefix: "keysOK (ks @ ks') \<Longrightarrow> keysOK ks"
  by (auto simp: keysOK_def sorted_wrt_append)

lemma map_fst_normalizeMembers: "map fst (normalizeMembers ms) = map fst ms"
  by (induction ms) auto

lemma parseTokens_tokensOf_all:
  "wfValue v \<longrightarrow>
     (\<forall>m st ts. m = PValue \<or> m = PValueOrClose \<longrightarrow>
        parseTokens m st (tokensOf v @ ts) = resume (complete (normalize v) st) ts)"
  "wfElements es \<longrightarrow> es \<noteq> [] \<longrightarrow>
     (\<forall>m acc st ts. m = PValue \<or> m = PValueOrClose \<longrightarrow>
        parseTokens m (FArr acc # st) (elementTokens es @ TRBracket # ts) =
          resume (complete (JArr (acc @ normalizeElements es)) st) ts)"
  "wfMembers ms \<longrightarrow> ms \<noteq> [] \<longrightarrow>
     (\<forall>m acc st ts. m = PKey \<or> m = PKeyOrClose \<longrightarrow> keysOK (map fst acc @ map fst ms) \<longrightarrow>
        parseTokens m (FObj acc # st) (memberTokens ms @ TRBrace # ts) =
          resume (complete (JObj (acc @ normalizeMembers ms)) st) ts)"
proof (induction v and es and ms rule: normalize_normalizeElements_normalizeMembers.induct)
  case 1
  show ?case by (auto simp: parseTokens_Cons)
next
  case (2 b)
  show ?case by (auto simp: parseTokens_Cons)
next
  case (3 n)
  show ?case by (auto simp: parseTokens_Cons)
next
  case (4 s)
  show ?case by (auto simp: parseTokens_Cons)
next
  case (5 es)
  show ?case
  proof (intro impI allI)
    fix m st ts
    assume wf: "wfValue (JArr es)" and m: "m = PValue \<or> m = PValueOrClose"
    have open_: "parseTokens m st (tokensOf (JArr es) @ ts) =
        parseTokens PValueOrClose (FArr [] # st) (elementTokens es @ TRBracket # ts)"
      using m by (auto simp add: parseTokens_Cons simp del: parseTokens.simps)
    show "parseTokens m st (tokensOf (JArr es) @ ts) = resume (complete (normalize (JArr es)) st) ts"
    proof (cases "es = []")
      case True
      then show ?thesis
        unfolding open_ by (simp add: parseTokens_Cons)
    next
      case False
      from wf have "wfElements es" by simp
      with 5 False have "parseTokens PValueOrClose (FArr [] # st) (elementTokens es @ TRBracket # ts) =
          resume (complete (JArr ([] @ normalizeElements es)) st) ts"
        by blast
      then show ?thesis
        unfolding open_ by simp
    qed
  qed
next
  case (6 ms)
  show ?case
  proof (intro impI allI)
    fix m st ts
    assume wf: "wfValue (JObj ms)" and m: "m = PValue \<or> m = PValueOrClose"
    have open_: "parseTokens m st (tokensOf (JObj ms) @ ts) =
        parseTokens PKeyOrClose (FObj [] # st) (memberTokens ms @ TRBrace # ts)"
      using m by (auto simp add: parseTokens_Cons simp del: parseTokens.simps)
    show "parseTokens m st (tokensOf (JObj ms) @ ts) = resume (complete (normalize (JObj ms)) st) ts"
    proof (cases "ms = []")
      case True
      then show ?thesis
        unfolding open_ by (simp add: parseTokens_Cons)
    next
      case False
      from wf have "wfMembers ms" and "keysOK (map fst [] @ map fst ms)" by simp_all
      with 6 False have "parseTokens PKeyOrClose (FObj [] # st) (memberTokens ms @ TRBrace # ts) =
          resume (complete (JObj ([] @ normalizeMembers ms)) st) ts"
        by blast
      then show ?thesis
        unfolding open_ by simp
    qed
  qed
next
  case 7
  show ?case by simp
next
  case (8 v vs)
  show ?case
  proof (intro impI allI)
    fix m acc st ts
    assume wf: "wfElements (v # vs)" and m: "m = PValue \<or> m = PValueOrClose"
    from wf have wv: "wfValue v" and wvs: "wfElements vs" by simp_all
    have first: "parseTokens m (FArr acc # st) (tokensOf v @ us) =
        parseTokens PComma (FArr (acc @ [normalize v]) # st) us" for us
    proof -
      from 8(1) wv m have "parseTokens m (FArr acc # st) (tokensOf v @ us) =
          resume (complete (normalize v) (FArr acc # st)) us"
        by blast
      then show ?thesis by simp
    qed
    have close: "parseTokens PComma (FArr es' # st) (TRBracket # us) =
        resume (complete (JArr es') st) us" for es' us
      by (simp add: parseTokens_Cons del: parseTokens.simps)
    have comma: "parseTokens PComma (FArr es' # st) (TComma # us) =
        parseTokens PValue (FArr es' # st) us" for es' us
      by (simp add: parseTokens_Cons del: parseTokens.simps)
    show "parseTokens m (FArr acc # st) (elementTokens (v # vs) @ TRBracket # ts) =
        resume (complete (JArr (acc @ normalizeElements (v # vs))) st) ts"
    proof (cases "vs = []")
      case True
      then have "elementTokens (v # vs) @ TRBracket # ts = tokensOf v @ TRBracket # ts"
        by simp
      then have "parseTokens m (FArr acc # st) (elementTokens (v # vs) @ TRBracket # ts) =
          resume (complete (JArr (acc @ [normalize v])) st) ts"
        by (simp only: first close)
      with True show ?thesis by simp
    next
      case False
      have ih: "parseTokens PValue (FArr (acc @ [normalize v]) # st)
            (elementTokens vs @ TRBracket # ts) =
          resume (complete (JArr ((acc @ [normalize v]) @ normalizeElements vs)) st) ts"
        using 8(2) wvs False by blast
      from False have "elementTokens (v # vs) @ TRBracket # ts =
          tokensOf v @ TComma # elementTokens vs @ TRBracket # ts"
        by simp
      then have "parseTokens m (FArr acc # st) (elementTokens (v # vs) @ TRBracket # ts) =
          resume (complete (JArr ((acc @ [normalize v]) @ normalizeElements vs)) st) ts"
        by (simp only: first comma ih)
      then show ?thesis by simp
    qed
  qed
next
  case 9
  show ?case by simp
next
  case (10 k v ms)
  show ?case
  proof (intro impI allI)
    fix m and acc :: "(jsstring \<times> json) list" and st ts
    assume wf: "wfMembers ((k, v) # ms)" and m: "m = PKey \<or> m = PKeyOrClose"
      and keys: "keysOK (map fst acc @ map fst ((k, v) # ms))"
    from wf have wv: "wfValue v" and wms: "wfMembers ms" by simp_all
    from keys have "keysOK ((map fst acc @ [k]) @ map fst ms)" by simp
    then have "keysOK (map fst acc @ [k])" by (rule keysOK_prefix)
    then have set: "objSet acc k (normalize v) = acc @ [(k, normalize v)]"
      by (rule objSet_last)
    have key: "parseTokens m (FObj acc # st) (TString k # TColon # us) =
        parseTokens PValue (FMember acc k # st) us" for us
      using m by (auto simp add: parseTokens_Cons simp del: parseTokens.simps)
    have val: "parseTokens PValue (FMember acc k # st) (tokensOf v @ us) =
        parseTokens PComma (FObj (acc @ [(k, normalize v)]) # st) us" for us
    proof -
      from 10(1) wv have "parseTokens PValue (FMember acc k # st) (tokensOf v @ us) =
          resume (complete (normalize v) (FMember acc k # st)) us"
        by blast
      then show ?thesis by (simp add: set)
    qed
    have close: "parseTokens PComma (FObj ms' # st) (TRBrace # us) =
        resume (complete (JObj ms') st) us" for ms' us
      by (simp add: parseTokens_Cons del: parseTokens.simps)
    have comma: "parseTokens PComma (FObj ms' # st) (TComma # us) =
        parseTokens PKey (FObj ms' # st) us" for ms' us
      by (simp add: parseTokens_Cons del: parseTokens.simps)
    show "parseTokens m (FObj acc # st) (memberTokens ((k, v) # ms) @ TRBrace # ts) =
        resume (complete (JObj (acc @ normalizeMembers ((k, v) # ms))) st) ts"
    proof (cases "ms = []")
      case True
      then have "memberTokens ((k, v) # ms) @ TRBrace # ts =
          TString k # TColon # tokensOf v @ TRBrace # ts"
        by simp
      then have "parseTokens m (FObj acc # st) (memberTokens ((k, v) # ms) @ TRBrace # ts) =
          resume (complete (JObj (acc @ [(k, normalize v)])) st) ts"
        by (simp only: key val close)
      with True show ?thesis by simp
    next
      case False
      from keys have "keysOK (map fst (acc @ [(k, normalize v)]) @ map fst ms)" by simp
      then have ih: "parseTokens PKey (FObj (acc @ [(k, normalize v)]) # st)
            (memberTokens ms @ TRBrace # ts) =
          resume (complete (JObj ((acc @ [(k, normalize v)]) @ normalizeMembers ms)) st) ts"
        using 10(2) wms False by blast
      from False have "memberTokens ((k, v) # ms) @ TRBrace # ts =
          TString k # TColon # tokensOf v @ TComma # memberTokens ms @ TRBrace # ts"
        by simp
      then have "parseTokens m (FObj acc # st) (memberTokens ((k, v) # ms) @ TRBrace # ts) =
          resume (complete (JObj ((acc @ [(k, normalize v)]) @ normalizeMembers ms)) st) ts"
        by (simp only: key val comma ih)
      then show ?thesis by simp
    qed
  qed
qed

lemma parse_stringify:
  assumes "wfValue v"
  shows "JSON_parse (JSON_stringify2 v) = Inr (normalize v)"
proof -
  have "parseTokens PValue [] (tokensOf v @ []) = resume (complete (normalize v) []) []"
    using parseTokens_tokensOf_all(1) [of v] assms by blast
  then show ?thesis
    by (simp add: JSON_parse_def parseText_def tokenize_stringify [OF assms])
qed

subsection \<open>The values that JSON.parse returns\<close>

lemma isNumber_isB64: "isB64 n \<Longrightarrow> isNumber n \<and> isNumber (negate n)"
  by (cases n) (auto simp: posB64_def)

lemma isNumber_numberValue: "isNumber (numberValue neg ip fp ex)"
proof (cases "decVal 0 (ip @ fp) = 0")
  case True
  then show ?thesis by (simp add: numberValue_def zeroOf_def)
next
  case False
  define q :: rat where "q = of_nat (decVal 0 (ip @ fp)) * pow10 (ex - int (length fp))"
  have "0 < q" using False by (simp add: q_def)
  then have "isB64 (b64 q)" by (simp add: b64_nonneg)
  from isNumber_isB64 [OF this] False show ?thesis
    by (simp add: numberValue_def q_def)
qed

lemma isNumber_lexNumber: "lexNumber cs = Some (n, r) \<Longrightarrow> isNumber n"
  by (auto simp: lexNumber_def lexUnsigned_def isNumber_numberValue
      split: list.splits if_splits option.splits)

text \<open>Array indices with the same value are the same string.\<close>

lemma digitVal_less: "isDigit c \<Longrightarrow> digitVal c < 10"
  by (auto simp: isDigit_def digitVal_def word_le_nat_alt)

lemma digitVal_inj:
  assumes "isDigit c" and "isDigit d" and "digitVal c = digitVal d"
  shows "c = d"
proof -
  from assms have "unat c = unat d"
    by (auto simp: isDigit_def digitVal_def word_le_nat_alt)
  then show ?thesis by (simp add: word_unat_eq_iff)
qed

lemma digitVal_zero: "isDigit c \<Longrightarrow> digitVal c = 0 \<longleftrightarrow> c = 0x30"
  using digitVal_inj [of c "0x30"] by (auto simp: isDigit_def digitVal_def)

lemma decVal_acc: "decVal acc cs = acc * 10 ^ length cs + decVal 0 cs"
proof (induction cs arbitrary: acc)
  case Nil
  show ?case by simp
next
  case (Cons c cs)
  have "decVal acc (c # cs) = (10 * acc + digitVal c) * 10 ^ length cs + decVal 0 cs"
    using Cons [of "10 * acc + digitVal c"] by simp
  also have "\<dots> = acc * 10 ^ length (c # cs) + (digitVal c * 10 ^ length cs + decVal 0 cs)"
    by (simp add: algebra_simps)
  also have "digitVal c * 10 ^ length cs + decVal 0 cs = decVal 0 (c # cs)"
    using Cons [of "digitVal c"] by simp
  finally show ?case .
qed

lemma decVal_Cons: "decVal 0 (c # cs) = digitVal c * 10 ^ length cs + decVal 0 cs"
  using decVal_acc [of "digitVal c" cs] by simp

lemma decVal_upper: "list_all isDigit cs \<Longrightarrow> decVal 0 cs < 10 ^ length cs"
proof (induction cs)
  case Nil
  show ?case by simp
next
  case (Cons c cs)
  define n where "n = (10::nat) ^ length cs"
  from Cons have d: "digitVal c \<le> 9" and r: "decVal 0 cs < n"
    using digitVal_less [of c] by (simp_all add: n_def)
  have "digitVal c * n \<le> 9 * n"
    using d by (rule mult_right_mono) simp
  with r have "digitVal c * n + decVal 0 cs < 10 * n" by linarith
  then show ?case
    unfolding decVal_Cons n_def by simp
qed

lemma decVal_lower:
  assumes "list_all isDigit cs" and "cs \<noteq> []" and "hd cs \<noteq> 0x30"
  shows "10 ^ (length cs - 1) \<le> decVal 0 cs"
proof -
  obtain c r where cs: "cs = c # r" using assms(2) by (cases cs) auto
  from assms cs have "digitVal c \<noteq> 0" by (simp add: digitVal_zero)
  then have "1 \<le> digitVal c" by simp
  define n where "n = (10::nat) ^ length r"
  from \<open>1 \<le> digitVal c\<close> have "1 * n \<le> digitVal c * n"
    by (rule mult_right_mono) simp
  then have "n \<le> digitVal c * n + decVal 0 r" by linarith
  then show ?thesis
    unfolding cs decVal_Cons n_def by simp
qed

lemma decVal_inj_length:
  assumes "length a = length b" and "list_all isDigit a" and "list_all isDigit b"
    and "decVal 0 a = decVal 0 b"
  shows "a = b"
  using assms
proof (induction a b rule: list_induct2)
  case Nil
  show ?case by simp
next
  case (Cons x xs y ys)
  define n where "n = (10::nat) ^ length xs"
  have n: "0 < n" by (simp add: n_def)
  have rx: "decVal 0 xs < n" and ry: "decVal 0 ys < n"
    using Cons.prems Cons.hyps decVal_upper [of xs] decVal_upper [of ys] by (simp_all add: n_def)
  have e: "digitVal x * n + decVal 0 xs = digitVal y * n + decVal 0 ys"
    using Cons.prems(3) Cons.hyps unfolding decVal_Cons n_def by simp
  have "(digitVal x * n + decVal 0 xs) div n = digitVal x"
    using rx n by simp
  moreover have "(digitVal y * n + decVal 0 ys) div n = digitVal y"
    using ry n by simp
  ultimately have d: "digitVal x = digitVal y" using e by simp
  with e have "decVal 0 xs = decVal 0 ys" by simp
  with Cons have "xs = ys" by simp
  moreover have "x = y"
    using digitVal_inj [OF _ _ d] Cons.prems by simp
  ultimately show ?case by simp
qed

lemma isArrayIndex_inj:
  assumes "isArrayIndex a" and "isArrayIndex b" and "decVal 0 a = decVal 0 b"
  shows "a = b"
proof -
  from assms have da: "list_all isDigit a" and db: "list_all isDigit b"
    and na: "a \<noteq> []" and nb: "b \<noteq> []"
    and za: "hd a = 0x30 \<longrightarrow> length a = 1" and zb: "hd b = 0x30 \<longrightarrow> length b = 1"
    by (simp_all add: isArrayIndex_def)
  have zero: "length c = 1 \<and> decVal 0 c = 0"
    if "c \<noteq> []" "hd c = 0x30" "hd c = 0x30 \<longrightarrow> length c = 1" for c
  proof -
    from that obtain x where "c = [x]" by (cases c) auto
    with that show ?thesis by (simp add: digitVal_def)
  qed
  have pos: "0 < decVal 0 c \<and> 10 ^ (length c - 1) \<le> decVal 0 c"
    if "list_all isDigit c" "c \<noteq> []" "hd c \<noteq> 0x30" for c
  proof -
    from decVal_lower [OF that] have "10 ^ (length c - 1) \<le> decVal 0 c" .
    moreover have "(0::nat) < 10 ^ (length c - 1)" by simp
    ultimately show ?thesis by linarith
  qed
  have len: "length a = length b"
  proof (cases "hd a = 0x30")
    case True
    from zero [OF na True za] have a: "length a = 1" "decVal 0 a = 0" by simp_all
    have "hd b = 0x30"
    proof (rule ccontr)
      assume "hd b \<noteq> 0x30"
      from pos [OF db nb this] a assms(3) show False by simp
    qed
    from zero [OF nb this zb] a show ?thesis by simp
  next
    case False
    from pos [OF da na False] have a: "0 < decVal 0 a" "10 ^ (length a - 1) \<le> decVal 0 a"
      by simp_all
    have hb: "hd b \<noteq> 0x30"
    proof
      assume "hd b = 0x30"
      from zero [OF nb this zb] a assms(3) show False by simp
    qed
    from pos [OF db nb hb] have b: "10 ^ (length b - 1) \<le> decVal 0 b" by simp
    have "(10::nat) ^ (length a - 1) < 10 ^ length b"
      using a(2) decVal_upper [OF db] assms(3) by linarith
    then have 1: "length a - 1 < length b" by simp
    have "(10::nat) ^ (length b - 1) < 10 ^ length a"
      using b decVal_upper [OF da] assms(3) by linarith
    then have 2: "length b - 1 < length a" by simp
    from 1 2 show ?thesis by linarith
  qed
  from decVal_inj_length [OF len da db assms(3)] show ?thesis .
qed

text \<open>\<open>objSet\<close> keeps the keys in property order and the values well formed.\<close>

lemma keys_objUpdate: "map fst (objUpdate k v ms) = map fst ms"
  by (induction ms) auto

lemma keys_insertIndex: "set (map fst (insertIndex k v ms)) = insert k (set (map fst ms))"
proof (induction ms)
  case Nil
  show ?case by simp
next
  case (Cons m ms)
  obtain k' v' where m: "m = (k', v')" by (cases m)
  show ?case
  proof (cases "isArrayIndex k' \<and> decVal 0 k' < decVal 0 k")
    case True
    then have "insertIndex k v (m # ms) = (k', v') # insertIndex k v ms"
      by (simp add: m)
    then have "set (map fst (insertIndex k v (m # ms))) =
        insert k' (set (map fst (insertIndex k v ms)))"
      by simp
    also note Cons
    finally show ?thesis by (auto simp: m)
  next
    case False
    then have "insertIndex k v (m # ms) = (k, v) # (k', v') # ms"
      by (auto simp: m)
    then show ?thesis by (simp add: m)
  qed
qed

lemma distinct_insertIndex:
  "k \<notin> set (map fst ms) \<Longrightarrow> distinct (map fst ms) \<Longrightarrow> distinct (map fst (insertIndex k v ms))"
proof (induction ms)
  case Nil
  show ?case by simp
next
  case (Cons m ms)
  obtain k' v' where m: "m = (k', v')" by (cases m)
  from Cons.prems have "k \<notin> set (map fst ms)" "distinct (map fst ms)" by simp_all
  from Cons.IH [OF this] have ih: "distinct (map fst (insertIndex k v ms))" .
  show ?case
  proof (cases "isArrayIndex k' \<and> decVal 0 k' < decVal 0 k")
    case True
    then have "insertIndex k v (m # ms) = (k', v') # insertIndex k v ms"
      by (simp add: m)
    with ih Cons.prems show ?thesis
      using keys_insertIndex [of k v ms] by (auto simp: m)
  next
    case False
    then have "insertIndex k v (m # ms) = (k, v) # (k', v') # ms"
      by (auto simp: m)
    with Cons.prems show ?thesis
      by (auto simp: m)
  qed
qed

lemma sorted_insertIndex:
  assumes "isArrayIndex k" and "k \<notin> set (map fst ms)" and "sorted_wrt keyBefore (map fst ms)"
  shows "sorted_wrt keyBefore (map fst (insertIndex k v ms))"
  using assms(2,3)
proof (induction ms)
  case Nil
  show ?case by simp
next
  case (Cons m ms)
  obtain k' v' where m: "m = (k', v')" by (cases m)
  from Cons.prems have new: "k \<notin> set (map fst ms)" and ne: "k \<noteq> k'"
    and s: "sorted_wrt keyBefore (map fst ms)" and b: "\<forall>x \<in> set (map fst ms). keyBefore k' x"
    by (auto simp: m)
  show ?case
  proof (cases "isArrayIndex k' \<and> decVal 0 k' < decVal 0 k")
    case True
    then have "keyBefore k' k" by (simp add: keyBefore_def)
    with b have "\<forall>x \<in> set (map fst (insertIndex k v ms)). keyBefore k' x"
      unfolding keys_insertIndex by simp
    moreover from True have "insertIndex k v (m # ms) = (k', v') # insertIndex k v ms"
      by (simp add: m)
    ultimately show ?thesis
      using Cons.IH [OF new s] by simp
  next
    case False
    have kk': "keyBefore k k'"
    proof (cases "isArrayIndex k'")
      case True
      with False have "decVal 0 k \<le> decVal 0 k'" by simp
      moreover have "decVal 0 k \<noteq> decVal 0 k'"
        using isArrayIndex_inj [OF assms(1) True] ne by blast
      ultimately show ?thesis using assms(1) by (simp add: keyBefore_def)
    next
      case False
      then show ?thesis by (simp add: keyBefore_def)
    qed
    have "keyBefore k x" if "x \<in> set (map fst ms)" for x
    proof -
      from b that have "keyBefore k' x" by blast
      with kk' show ?thesis by (auto simp: keyBefore_def)
    qed
    then have "\<forall>x \<in> set (map fst ms). keyBefore k x" by blast
    moreover from False have "insertIndex k v (m # ms) = (k, v) # (k', v') # ms"
      by (auto simp: m)
    ultimately show ?thesis
      using kk' b s by (simp add: m)
  qed
qed

lemma keysOK_objSet:
  assumes "keysOK (map fst ms)"
  shows "keysOK (map fst (objSet ms k v))"
proof (cases "map_of ms k = None")
  case False
  then have "objSet ms k v = objUpdate k v ms" by (auto simp: objSet_def)
  with assms show ?thesis by (simp add: keys_objUpdate)
next
  case True
  then have new: "k \<notin> set (map fst ms)" by (simp add: map_of_eq_None_iff)
  show ?thesis
  proof (cases "isArrayIndex k")
    case True
    with new assms distinct_insertIndex [OF new, of v] sorted_insertIndex [OF True new, of v]
    show ?thesis
      using \<open>map_of ms k = None\<close> by (simp add: objSet_def objInsert_def keysOK_def)
  next
    case False
    with new assms \<open>map_of ms k = None\<close> show ?thesis
      by (auto simp: objSet_def objInsert_def keysOK_def sorted_wrt_append keyBefore_def)
  qed
qed

lemma wfMembers_append: "wfMembers (ms @ ms') \<longleftrightarrow> wfMembers ms \<and> wfMembers ms'"
  by (induction ms) auto

lemma wfElements_append: "wfElements (es @ es') \<longleftrightarrow> wfElements es \<and> wfElements es'"
  by (induction es) auto

lemma wfMembers_insertIndex: "wfValue v \<Longrightarrow> wfMembers ms \<Longrightarrow> wfMembers (insertIndex k v ms)"
  by (induction ms) auto

lemma wfMembers_objUpdate: "wfValue v \<Longrightarrow> wfMembers ms \<Longrightarrow> wfMembers (objUpdate k v ms)"
  by (induction ms) auto

lemma wfMembers_objSet: "wfValue v \<Longrightarrow> wfMembers ms \<Longrightarrow> wfMembers (objSet ms k v)"
  by (simp add: objSet_def objInsert_def wfMembers_append wfMembers_insertIndex
      wfMembers_objUpdate)

lemma consTok_Some:
  assumes "consTok t r = Some ts"
  obtains ts' where "r = Some ts'" and "ts = t # ts'"
  using assms by (cases r) auto

lemma tokenize_Cons_Some:
  assumes "tokenize (c # cs) = Some ts"
  shows "tokenize cs = Some ts \<or>
    (\<exists>t r ts'. ts = t # ts' \<and> tokenize r = Some ts' \<and> length r \<le> length cs \<and> wfToken t)"
proof -
  define R where "R = (\<exists>t r ts'. ts = t # ts' \<and> tokenize r = Some ts' \<and> length r \<le> length cs
    \<and> wfToken t)"
  have tok: R if "consTok t0 (tokenize r0) = Some ts" and "wfToken t0" and "length r0 \<le> length cs"
    for t0 r0
    using that unfolding R_def by (cases "tokenize r0") auto
  have t: "(if isJsonSpace c then tokenize cs
      else if c = 0x7B then consTok TLBrace (tokenize cs)
      else if c = 0x7D then consTok TRBrace (tokenize cs)
      else if c = 0x5B then consTok TLBracket (tokenize cs)
      else if c = 0x5D then consTok TRBracket (tokenize cs)
      else if c = 0x2C then consTok TComma (tokenize cs)
      else if c = 0x3A then consTok TColon (tokenize cs)
      else if c = 0x22 then
        (case lexString cs of None \<Rightarrow> None | Some (s, r) \<Rightarrow> consTok (TString s) (tokenize r))
      else if c = 0x2D \<or> isDigit c then
        (case lexNumber (c # cs) of
           None \<Rightarrow> None
         | Some (n, r) \<Rightarrow> consTok (TNumber n) (tokenize r))
      else if startsWith (c # cs) (js ''true'') then consTok TTrue (tokenize (drop 3 cs))
      else if startsWith (c # cs) (js ''false'') then consTok TFalse (tokenize (drop 4 cs))
      else if startsWith (c # cs) (js ''null'') then consTok TNull (tokenize (drop 3 cs))
      else None) = Some ts"
    using assms by (simp only: tokenize.simps)
  have "tokenize cs = Some ts \<or> R"
  proof (cases "isJsonSpace c")
    case True
    from t have "tokenize cs = Some ts" by (simp only: if_P [OF True])
    then show ?thesis by simp
  next
    case sp: False
    note t1 = t [unfolded if_not_P [OF sp]]
    show ?thesis
    proof (cases "c = 0x7B")
      case True
      from t1 have "consTok TLBrace (tokenize cs) = Some ts" by (simp only: if_P [OF True])
      from tok [OF this] show ?thesis by simp
    next
      case n1: False
      note t2 = t1 [unfolded if_not_P [OF n1]]
      show ?thesis
      proof (cases "c = 0x7D")
        case True
        from t2 have "consTok TRBrace (tokenize cs) = Some ts" by (simp only: if_P [OF True])
        from tok [OF this] show ?thesis by simp
      next
        case n2: False
        note t3 = t2 [unfolded if_not_P [OF n2]]
        show ?thesis
        proof (cases "c = 0x5B")
          case True
          from t3 have "consTok TLBracket (tokenize cs) = Some ts" by (simp only: if_P [OF True])
          from tok [OF this] show ?thesis by simp
        next
          case n3: False
          note t4 = t3 [unfolded if_not_P [OF n3]]
          show ?thesis
          proof (cases "c = 0x5D")
            case True
            from t4 have "consTok TRBracket (tokenize cs) = Some ts" by (simp only: if_P [OF True])
            from tok [OF this] show ?thesis by simp
          next
            case n4: False
            note t5 = t4 [unfolded if_not_P [OF n4]]
            show ?thesis
            proof (cases "c = 0x2C")
              case True
              from t5 have "consTok TComma (tokenize cs) = Some ts" by (simp only: if_P [OF True])
              from tok [OF this] show ?thesis by simp
            next
              case n5: False
              note t6 = t5 [unfolded if_not_P [OF n5]]
              show ?thesis
              proof (cases "c = 0x3A")
                case True
                from t6 have "consTok TColon (tokenize cs) = Some ts" by (simp only: if_P [OF True])
                from tok [OF this] show ?thesis by simp
              next
                case n6: False
                note t7 = t6 [unfolded if_not_P [OF n6]]
                show ?thesis
                proof (cases "c = 0x22")
                  case True
                  from t7 have c: "(case lexString cs of None \<Rightarrow> None
                      | Some (s, r) \<Rightarrow> consTok (TString s) (tokenize r)) = Some ts"
                    by (simp only: if_P [OF True])
                  then obtain s r where l: "lexString cs = Some (s, r)"
                    by (cases "lexString cs") auto
                  with c have "consTok (TString s) (tokenize r) = Some ts" by simp
                  from tok [OF this] lexString_shorter [OF l] show ?thesis by simp
                next
                  case n7: False
                  note t8 = t7 [unfolded if_not_P [OF n7]]
                  show ?thesis
                  proof (cases "c = 0x2D \<or> isDigit c")
                    case True
                    from t8 have c: "(case lexNumber (c # cs) of None \<Rightarrow> None
                        | Some (n, r) \<Rightarrow> consTok (TNumber n) (tokenize r)) = Some ts"
                      by (simp only: if_P [OF True])
                    then obtain n r where l: "lexNumber (c # cs) = Some (n, r)"
                      by (cases "lexNumber (c # cs)") auto
                    with c have "consTok (TNumber n) (tokenize r) = Some ts" by simp
                    from tok [OF this] lexNumber_shorter [OF l] isNumber_lexNumber [OF l]
                    show ?thesis by simp
                  next
                    case n8: False
                    note t9 = t8 [unfolded if_not_P [OF n8]]
                    show ?thesis
                    proof (cases "startsWith (c # cs) (js ''true'')")
                      case True
                      from t9 have "consTok TTrue (tokenize (drop 3 cs)) = Some ts"
                        by (simp only: if_P [OF True])
                      from tok [OF this] show ?thesis by simp
                    next
                      case n9: False
                      note t10 = t9 [unfolded if_not_P [OF n9]]
                      show ?thesis
                      proof (cases "startsWith (c # cs) (js ''false'')")
                        case True
                        from t10 have "consTok TFalse (tokenize (drop 4 cs)) = Some ts"
                          by (simp only: if_P [OF True])
                        from tok [OF this] show ?thesis by simp
                      next
                        case n10: False
                        note t11 = t10 [unfolded if_not_P [OF n10]]
                        show ?thesis
                        proof (cases "startsWith (c # cs) (js ''null'')")
                          case True
                          from t11 have "consTok TNull (tokenize (drop 3 cs)) = Some ts"
                            by (simp only: if_P [OF True])
                          from tok [OF this] show ?thesis by simp
                        next
                          case False
                          from t11 show ?thesis by (simp only: if_not_P [OF False]) simp
                        qed
                      qed
                    qed
                  qed
                qed
              qed
            qed
          qed
        qed
      qed
    qed
  qed
  then show ?thesis by (simp only: R_def)
qed

lemma wfToken_tokenize: "tokenize s = Some ts \<Longrightarrow> list_all wfToken ts"
proof (induction "length s" arbitrary: s ts rule: less_induct)
  case less
  show ?case
  proof (cases s)
    case Nil
    with less.prems show ?thesis by simp
  next
    case (Cons c cs)
    from less.prems have "tokenize (c # cs) = Some ts" by (simp only: Cons)
    from tokenize_Cons_Some [OF this]
    consider "tokenize cs = Some ts"
      | t r ts' where "ts = t # ts'" "tokenize r = Some ts'" "length r \<le> length cs" "wfToken t"
      by blast
    then show ?thesis
    proof cases
      case 1
      have "length cs < length s" by (simp add: Cons)
      from less.hyps [OF this 1] show ?thesis .
    next
      case 2
      have "length r < length s" using 2(3) by (simp add: Cons)
      from less.hyps [OF this 2(2)] 2(1,4) show ?thesis by simp
    qed
  qed
qed

lemma wfState_complete:
  assumes "complete v st = Some s" and "wfValue v" and "list_all wfFrame st"
  shows "wfState s"
proof (cases st)
  case Nil
  with assms show ?thesis by (auto simp: wfState_def)
next
  case (Cons f st')
  with assms show ?thesis
    by (cases f) (auto simp: wfState_def wfElements_append keysOK_objSet wfMembers_objSet)
qed

lemma wfState_startValue:
  assumes "startValue st t = Some s" and "wfToken t" and "list_all wfFrame st"
  shows "wfState s"
proof (cases t)
  case TLBrace
  with assms show ?thesis by (auto simp: wfState_def keysOK_def)
next
  case TLBracket
  with assms show ?thesis by (auto simp: wfState_def)
next
  case (TString x)
  with assms wfState_complete [of "JStr x" st s] show ?thesis by simp
next
  case (TNumber n)
  with assms wfState_complete [of "JNum n" st s] show ?thesis by simp
next
  case TTrue
  with assms wfState_complete [of "JBool True" st s] show ?thesis by simp
next
  case TFalse
  with assms wfState_complete [of "JBool False" st s] show ?thesis by simp
next
  case TNull
  with assms wfState_complete [of JNull st s] show ?thesis by simp
qed (use assms in simp_all)

lemma wfState_closeFrame:
  assumes "closeFrame st t = Some s" and "list_all wfFrame st"
  shows "wfState s"
proof -
  from assms(1) consider es st' where "st = FArr es # st'" "t = TRBracket" "complete (JArr es) st' = Some s"
    | ms st' where "st = FObj ms # st'" "t = TRBrace" "complete (JObj ms) st' = Some s"
    by (cases "(st, t)" rule: closeFrame.cases) auto
  then show ?thesis
  proof cases
    case 1
    with assms(2) wfState_complete [of "JArr es" st' s] show ?thesis by simp
  next
    case 2
    with assms(2) wfState_complete [of "JObj ms" st' s] show ?thesis by simp
  qed
qed

lemma wfState_readKey:
  assumes "readKey st t = Some s" and "list_all wfFrame st"
  shows "wfState s"
  using assms by (cases "(st, t)" rule: readKey.cases) (auto simp: wfState_def)

lemma wfState_afterComma:
  assumes "afterComma st = Some s" and "list_all wfFrame st"
  shows "wfState s"
  using assms by (cases st rule: afterComma.cases) (auto simp: wfState_def)

lemma wfState_step:
  assumes "step m st t = Some s" and "wfToken t" and "list_all wfFrame st"
  shows "wfState s"
proof (cases m)
  case PValue
  with assms wfState_startValue [of st t s] show ?thesis by simp
next
  case PValueOrClose
  with assms wfState_startValue [of st t s] wfState_closeFrame [of st t s] show ?thesis
    by (simp split: if_splits)
next
  case PKeyOrClose
  with assms wfState_readKey [of st t s] wfState_closeFrame [of st t s] show ?thesis
    by (simp split: if_splits)
next
  case PKey
  with assms wfState_readKey [of st t s] show ?thesis by simp
next
  case PColon
  with assms show ?thesis by (auto simp: wfState_def split: if_splits)
next
  case PComma
  with assms wfState_afterComma [of st s] wfState_closeFrame [of st t s] show ?thesis
    by (simp split: if_splits)
next
  case (PDone v)
  with assms show ?thesis by simp
qed

lemma wfValue_parseTokens:
  assumes "parseTokens m st ts = Some v" and "list_all wfToken ts" and "wfState (m, st)"
  shows "wfValue v"
  using assms
proof (induction ts arbitrary: m st)
  case Nil
  then show ?case by (cases m) (simp_all add: wfState_def)
next
  case (Cons t ts)
  from Cons.prems(1) obtain m' st' where s: "step m st t = Some (m', st')"
    and p: "parseTokens m' st' ts = Some v"
    by (cases "step m st t") auto
  from Cons.prems have "wfToken t" "list_all wfFrame st" "list_all wfToken ts"
    by (simp_all add: wfState_def)
  from wfState_step [OF s this(1,2)] Cons.IH [OF p this(3)] show ?case by blast
qed

lemma wfValue_JSON_parse:
  assumes "JSON_parse s = Inr v"
  shows "wfValue v"
proof -
  from assms obtain ts where t: "tokenize s = Some ts" and p: "parseTokens PValue [] ts = Some v"
    by (auto simp: JSON_parse_def parseText_def split: option.splits)
  from wfValue_parseTokens [OF p wfToken_tokenize [OF t]] show ?thesis
    by (simp add: wfState_def)
qed

text \<open>A value read by \<open>JSON.parse\<close> is printed and read back up to \<open>normalize\<close>.\<close>

lemma parse_stringify_parse:
  assumes "JSON_parse s = Inr v"
  shows "JSON_parse (JSON_stringify2 v) = Inr (normalize v)"
  using wfValue_JSON_parse [OF assms] by (rule parse_stringify)

subsection \<open>The result of a call\<close>

lemma normalize_plain_all:
  "(\<forall>n \<in> set (numbersOf v). \<not> nonFinite n \<and> n \<noteq> NegZero) \<longrightarrow> normalize v = v"
  "(\<forall>n \<in> set (elementNumbers es). \<not> nonFinite n \<and> n \<noteq> NegZero) \<longrightarrow> normalizeElements es = es"
  "(\<forall>n \<in> set (memberNumbers ms). \<not> nonFinite n \<and> n \<noteq> NegZero) \<longrightarrow> normalizeMembers ms = ms"
  by (induction v and es and ms rule: normalize_normalizeElements_normalizeMembers.induct) auto

lemma round_pos_overflow:
  assumes "pow2 1024 \<le> x"
  shows "round_pos x = PosInf"
proof -
  have fl: "floor_log2 (pow2 1024) = 1024"
    by (rule floor_log2_unique) (simp_all add: pow2_strict_mono)
  have ex: "expo (pow2 1024) \<le> 1024"
    by (simp add: expo_def fl)
  have "rounded (pow2 1024) = pow2 1024"
    by (rule rounded_multiple [where k = 1 and e = 1024]) (simp_all add: ex)
  with rounded_mono [of "pow2 1024" x] assms have "pow2 1024 \<le> rounded x"
    by simp
  then show ?thesis
    by (simp add: round_pos_rounded)
qed

lemma numberValue_huge: "numberValue False [0x31] [] 400 = PosInf"
proof -
  have "pow2 1024 \<le> pow10 400"
    by (simp add: pow2_def pow10_def)
  then have "round_pos (pow10 400) = PosInf"
    by (rule round_pos_overflow)
  moreover have "0 < pow10 400" by simp
  ultimately show ?thesis
    by (simp add: numberValue_def digitVal_def b64_def)
qed

lemma chunk_lineHuge: "chunkContent lineHuge = js ''1e400''"
  by (simp add: lineHuge_def line_eval lex_eval parse_eval)

lemma tokenize_huge: "tokenize (js ''1e400'') = Some [TNumber PosInf]"
  using numberValue_huge
  by (simp add: isJsonSpace_def isDigit_def lexNumber_def lexUnsigned_def lexInt_def lexFrac_def
      lexExp_def lexExpDigits_def digitVal_def)

lemma parse_huge: "JSON_parse (cleanJsonString (js ''1e400'')) = Inr (JNum PosInf)"
proof -
  have "cleanJsonString (js ''1e400'') = js ''1e400''"
    by (simp add: clean_eval startsWith_def)
  then show ?thesis
    by (simp only: JSON_parse_def parseText_def tokenize_huge) simp
qed

lemma parse_null: "JSON_parse (js ''null'') = Inr JNull"
  by (simp add: lex_eval parse_eval)

lemma chunk_lineHalves: "chunkContent lineHalves = js ''[1.5,true]''"
  by (simp add: lineHalves_def line_eval lex_eval parse_eval)

lemma parse_halves:
  "JSON_parse (cleanJsonString (js ''[1.5,true]'')) = Inr (JArr [JNum (Fin (3 / 2)), JBool True])"
  by (simp add: clean_eval lex_eval parse_eval number_eval Let_def cong: let_weak_cong)

text \<open>
  C1, as the spec states it, fails: when the content is \<open>1e400\<close>, \<open>JSON.parse\<close> reads
  the number \<open>Infinity\<close>, which \<open>JSON.stringify\<close> writes as \<open>null\<close>; the call resolves
  to \<open>null\<close>, which parses to the value null and not to the number the content
  parses to.
\<close>

theorem reserialized_result_counterexample:
  "JSON_parse (cleanJsonString (concat (map chunkContent [lineHuge]))) = Inr (JNum PosInf)
   \<and> translate (envOf [lineHuge]) (js ''{}'') (js ''French'') None None (Some alwaysReturns) =
       Some \<lparr>outcome = Resolves (js ''null''), progressValues = [],
             streamValues = [js ''1e400'']\<rparr>
   \<and> JSON_parse (js ''null'') = Inr JNull"
proof (intro conjI)
  show p: "JSON_parse (cleanJsonString (concat (map chunkContent [lineHuge]))) = Inr (JNum PosInf)"
    using parse_huge by (simp add: chunk_lineHuge)
  have "validate None t (js ''1e400'') = Resolves (js ''null'')" for t
    unfolding validate_def parse_huge by (simp add: JSON_stringify2_def)
  then show "translate (envOf [lineHuge]) (js ''{}'') (js ''French'') None None (Some alwaysReturns) =
       Some \<lparr>outcome = Resolves (js ''null''), progressValues = [],
             streamValues = [js ''1e400'']\<rparr>"
    unfolding translate_envOf
    by (simp add: chunk_lineHuge settle_def initialState_def
        reportStream_def reportProgress_def accumulate_def record_call_def)
  show "JSON_parse (js ''null'') = Inr JNull"
    by (fact parse_null)
qed

text \<open>
  C1, amended: when the stream completes and the cleaned content parses as JSON to the
  value \<open>v\<close>, the call resolves to \<open>JSON.stringify(v, null, 2)\<close>, and that string
  parses to \<open>normalize v\<close>: the value \<open>v\<close> with every number that is not finite
  replaced by null, and \<open>-0\<close> by \<open>0\<close>. It parses to \<open>v\<close> itself when \<open>v\<close> has no
  such number.
\<close>

theorem reserialized_result_parses_back:
  assumes "configured env" and "fetch env = FetchResponse r" and "ok r" and "body r = Some rd"
    and "delivers rd cs" and "returns onProgress (length cs)" and "returns onStream (length cs)"
    and "JSON_parse (cleanJsonString (concat (map chunkContent cs))) = Inr v"
  shows "\<exists>res. translate env text targetLang sig onProgress onStream = Some res
           \<and> outcome res = Resolves (JSON_stringify2 v)
           \<and> JSON_parse (JSON_stringify2 v) = Inr (normalize v)
           \<and> ((\<forall>n \<in> set (numbersOf v). \<not> nonFinite n \<and> n \<noteq> NegZero) \<longrightarrow>
                JSON_parse (JSON_stringify2 v) = Inr v)"
proof -
  have t: "translate env text targetLang sig onProgress onStream =
      Some (settle (validate sig (Suc (length cs)) (concat (map chunkContent cs)))
              (afterChunks onProgress onStream (estimated text) initialState cs))"
    by (rule translate_completes [OF assms(1-7)])
  have o: "validate sig (Suc (length cs)) (concat (map chunkContent cs)) =
      Resolves (JSON_stringify2 v)"
    by (simp add: validate_def assms(8))
  have p: "JSON_parse (JSON_stringify2 v) = Inr (normalize v)"
    using assms(8) by (rule parse_stringify_parse)
  have "normalize v = v" if "\<forall>n \<in> set (numbersOf v). \<not> nonFinite n \<and> n \<noteq> NegZero"
    using normalize_plain_all(1) [of v] that by blast
  with p show ?thesis
    by (simp add: t o settle_def)
qed

theorem reserialized_result_parses_back_witness:
  "configured (envOf [lineHalves]) \<and> delivers (readerOf [lineHalves]) [lineHalves]
   \<and> JSON_parse (cleanJsonString (concat (map chunkContent [lineHalves]))) =
       Inr (JArr [JNum (Fin (3 / 2)), JBool True])
   \<and> numbersOf (JArr [JNum (Fin (3 / 2)), JBool True]) = [Fin (3 / 2)]
   \<and> \<not> nonFinite (Fin (3 / 2)) \<and> Fin (3 / 2) \<noteq> NegZero
   \<and> (\<exists>res. translate (envOf [lineHalves]) (js ''{}'') (js ''French'') None None None = Some res
          \<and> outcome res = Resolves (JSON_stringify2 (JArr [JNum (Fin (3 / 2)), JBool True]))
          \<and> JSON_parse (JSON_stringify2 (JArr [JNum (Fin (3 / 2)), JBool True])) =
              Inr (JArr [JNum (Fin (3 / 2)), JBool True]))"
proof -
  let ?r = "\<lparr>status = 200, body = Some (readerOf [lineHalves])\<rparr>"
  let ?v = "JArr [JNum (Fin (3 / 2)), JBool True]"
  have f: "fetch (envOf [lineHalves]) = FetchResponse ?r"
    by (simp add: envOf_def)
  have k: "ok ?r"
    by (simp add: ok_def)
  have b: "body ?r = Some (readerOf [lineHalves])"
    by simp
  have p: "JSON_parse (cleanJsonString (concat (map chunkContent [lineHalves]))) = Inr ?v"
    using parse_halves by (simp add: chunk_lineHalves)
  have n: "\<forall>n \<in> set (numbersOf ?v). \<not> nonFinite n \<and> n \<noteq> NegZero"
    by simp
  from reserialized_result_parses_back [OF configured_envOf f k b delivers_readerOf returns_None
      returns_None p, of "js ''{}''" "js ''French''" None]
    configured_envOf [of "[lineHalves]"] delivers_readerOf [of "[lineHalves]"] p n
  have "\<exists>res. translate (envOf [lineHalves]) (js ''{}'') (js ''French'') None None None = Some res
          \<and> outcome res = Resolves (JSON_stringify2 ?v)
          \<and> JSON_parse (JSON_stringify2 ?v) = Inr ?v"
    by blast
  moreover have "numbersOf ?v = [Fin (3 / 2)]" "\<not> nonFinite (Fin (3 / 2))" "Fin (3 / 2) \<noteq> NegZero"
    by simp_all
  ultimately show ?thesis
    using configured_envOf [of "[lineHalves]"] delivers_readerOf [of "[lineHalves]"] p
    by blast
qed

end
